theory Spec2Isabelle
  imports Main "HOL-Library.Sublist"
begin

section \<open>Strings of the JavaScript runtime\<close>

text \<open>
  Text is a \<^typ>\<open>string\<close>: a list of bytes, the UTF-8 form of the JavaScript string. The
  source only searches for the ASCII braces, compares with ASCII literals and concatenates,
  and these agree on UTF-8 bytes and on UTF-16 code units. An index that JavaScript reports
  as \<open>-1\<close> is \<^term>\<open>None\<close> here.
\<close>

fun indexOf :: "string \<Rightarrow> char \<Rightarrow> nat option" where
  "indexOf [] c = None"
| "indexOf (x # xs) c = (if x = c then Some 0 else map_option Suc (indexOf xs c))"

fun lastIndexOf :: "string \<Rightarrow> char \<Rightarrow> nat option" where
  "lastIndexOf [] c = None"
| "lastIndexOf (x # xs) c =
     (case lastIndexOf xs c of
        Some i \<Rightarrow> Some (Suc i)
      | None \<Rightarrow> (if x = c then Some 0 else None))"

text \<open>\<open>text.slice(start, stop)\<close> for two indices that are not negative: empty when
  \<open>stop \<le> start\<close>, cut at the end of the text otherwise.\<close>

definition slice :: "string \<Rightarrow> nat \<Rightarrow> nat \<Rightarrow> string" where
  "slice text start stop = (if start < stop then take (stop - start) (drop start text) else [])"

section \<open>The route \<open>POST /api/process\<close>\<close>

subsection \<open>\<open>cleanJson\<close>\<close>

text \<open>
  \<open>JSON.parse\<close> belongs to the runtime, not to the repository: it is the parameter
  \<open>parse\<close>, which is \<^term>\<open>None\<close> where \<open>JSON.parse\<close> throws (the \<open>catch\<close> of
  \<open>cleanJson\<close> turns that into \<open>null\<close>).
\<close>

definition cleanJson :: "(string \<Rightarrow> 'a option) \<Rightarrow> string \<Rightarrow> 'a option" where
  "cleanJson parse text =
     (case indexOf text CHR ''{'' of
        None \<Rightarrow> None
      | Some start \<Rightarrow>
          (case lastIndexOf text CHR ''}'' of
             None \<Rightarrow> None
           | Some stop \<Rightarrow> parse (slice text start (stop + 1))))"

text \<open>The argument that \<open>cleanJson\<close> hands to \<open>JSON.parse\<close>; \<^term>\<open>None\<close> when it returns
  \<open>null\<close> before parsing anything.\<close>

definition parsed_span :: "string \<Rightarrow> string option" where
  "parsed_span text = cleanJson Some text"

subsection \<open>The specification's reading of the extracted span\<close>

text \<open>
  The specification speaks of the first balanced \<open>{...}\<close> span. \<open>closing d cs\<close> is the
  number of characters of \<open>cs\<close> up to and including the brace that closes a span with \<open>d\<close>
  further braces open inside it; \<open>first_balanced_span\<close> is the balanced span with the
  leftmost opening brace.
\<close>

fun closing :: "nat \<Rightarrow> string \<Rightarrow> nat option" where
  "closing d [] = None"
| "closing d (c # cs) =
     (if c = CHR ''{'' then map_option Suc (closing (Suc d) cs)
      else if c = CHR ''}'' then
        (case d of 0 \<Rightarrow> Some 1 | Suc d' \<Rightarrow> map_option Suc (closing d' cs))
      else map_option Suc (closing d cs))"

fun first_balanced_span :: "string \<Rightarrow> string option" where
  "first_balanced_span [] = None"
| "first_balanced_span (c # cs) =
     (if c = CHR ''{'' then
        (case closing 0 cs of
           Some n \<Rightarrow> Some (c # take n cs)
         | None \<Rightarrow> first_balanced_span cs)
      else first_balanced_span cs)"

subsection \<open>Types of the route\<close>

record InsightBundle =
  boatOverview :: "string option"
  visualFocalPoints :: "string option"
  locationAdaptation :: "string option"

text \<open>The bundle \<open>{}\<close>.\<close>

definition empty_insights :: InsightBundle where
  "empty_insights = \<lparr> boatOverview = None, visualFocalPoints = None, locationAdaptation = None \<rparr>"

text \<open>
  The analysis as \<open>POST\<close> reads it. \<open>cleanJson\<close> casts whatever object the model wrote to
  \<open>AnalysisPayload\<close> without checking it, so a property the type declares may be missing:
  \<open>summary\<close> is read through \<open>??\<close>, \<open>rejectionReason\<close> is optional, and \<open>insights\<close> is
  \<^term>\<open>None\<close> when the object has no such property (reading a property of it then throws).
  \<open>shouldReject\<close> is the truth value that \<open>if (analysis.shouldReject)\<close> sees.
\<close>

record AnalysisPayload =
  shouldReject :: bool
  rejectionReason :: "string option"
  summary :: "string option"
  insights :: "InsightBundle option"

text \<open>The payload of \<open>client.responses.create\<close>, in the shape \<open>extractMessageText\<close> casts
  it to; \<open>NoOutput\<close> is a payload that is falsy, not an object, or has no \<open>output\<close>.\<close>

record content_block =
  block_type :: "string option"
  block_text :: "string option"

record output_item =
  content :: "content_block list option"

datatype responses_payload = NoOutput | Output "output_item list option"

record image_datum =
  b64_json :: "string option"

record images_payload =
  data :: "image_datum list option"

text \<open>
  The requests sent to the model provider. \<open>ResponsesCreate model text image_url detail
  temperature\<close> is the one user message with an \<open>input_text\<close> and an \<open>input_image\<close>;
  \<open>ImagesGenerate model prompt size quality style\<close> is the image request. A call answers
  with a payload, or rejects with a message (\<^term>\<open>Inl\<close>).
\<close>

datatype api_call =
  ResponsesCreate string string string string string
| ImagesGenerate string string string string string

record OpenAI =
  responses_create :: "api_call \<Rightarrow> string + responses_payload"
  images_generate :: "api_call \<Rightarrow> string + images_payload"

text \<open>
  What the route takes from the runtime: \<open>JSON.parse\<close> followed by the cast to
  \<open>AnalysisPayload\<close> (\<^term>\<open>None\<close> where it throws), and \<open>Buffer.toString("base64")\<close>.
  The text that \<open>cleanJson\<close> hands to \<open>JSON.parse\<close> is empty or begins with \<open>{\<close>
  (\<open>parsed_span_shape\<close> below), so a parse that succeeds yields an object and the test
  \<open>!parsed\<close> of \<open>analyzeSourceImage\<close> holds exactly when \<open>cleanJson\<close> returned \<open>null\<close>.
\<close>

record runtime =
  JSON_parse :: "string \<Rightarrow> AnalysisPayload option"
  toBase64 :: "string \<Rightarrow> string"

record File =
  file_name :: string
  file_type :: string
  file_bytes :: string

datatype form_value = FText string | FFile File

type_synonym form = "(string \<times> form_value) list"

text \<open>What \<open>POST\<close> reads: the environment variable, and the form of the request;
  \<open>request.formData()\<close> rejects with a message (\<^term>\<open>Inl\<close>) when the body is not a form.\<close>

record request =
  OPENAI_API_KEY :: "string option"
  formData :: "string + form"

text \<open>The JSON body of a success, as the route writes it and as the uploader reads it.\<close>

record process_payload =
  generatedImage :: string
  prompt :: string
  payload_summary :: string
  qualityReport :: string
  payload_insights :: "InsightBundle option"

datatype response_body =
  ErrorBody string "string option"
| ResultBody process_payload

record http_response =
  http_status :: nat
  http_body :: response_body

subsection \<open>\<open>extractMessageText\<close>\<close>

definition truthy :: "string option \<Rightarrow> bool" where
  "truthy s = (case s of None \<Rightarrow> False | Some t \<Rightarrow> t \<noteq> [])"

fun scan_blocks :: "content_block list \<Rightarrow> string option" where
  "scan_blocks [] = None"
| "scan_blocks (block # blocks) =
     (if block_type block = Some ''output_text'' \<and> truthy (block_text block)
      then block_text block else scan_blocks blocks)"

fun scan_items :: "output_item list \<Rightarrow> string option" where
  "scan_items [] = None"
| "scan_items (item # items) =
     (case scan_blocks (case content item of None \<Rightarrow> [] | Some blocks \<Rightarrow> blocks) of
        Some t \<Rightarrow> Some t
      | None \<Rightarrow> scan_items items)"

definition extractMessageText :: "responses_payload \<Rightarrow> string" where
  "extractMessageText payload =
     (case payload of
        NoOutput \<Rightarrow> []
      | Output output \<Rightarrow>
          (case scan_items (case output of None \<Rightarrow> [] | Some items \<Rightarrow> items) of
             Some t \<Rightarrow> t
           | None \<Rightarrow> []))"

subsection \<open>The three calls\<close>

text \<open>Each stage returns its result together with the requests it sent.\<close>

definition analysis_request :: "string \<Rightarrow> string \<Rightarrow> api_call" where
  "analysis_request imageBase64 mimeType =
     ResponsesCreate ''gpt-4.1-mini''
       (''You are a marine photo analyst. Inspect the image for boats on trailers and dealership backdrops. '' @
        ''Return JSON with keys: shouldReject (boolean), rejectionReason (string), summary (string), boatOverview, visualFocalPoints, locationAdaptation. '' @
        ''shouldReject must be true if any trailer parts, parking lot, ramps, vehicles, or dealership clutter dominate the frame or if the boat is occluded.'')
       (''data:'' @ mimeType @ '';base64,'' @ imageBase64)
       ''high'' ''0.2''"

definition default_analysis :: AnalysisPayload where
  "default_analysis =
     \<lparr> shouldReject = False,
       rejectionReason = None,
       summary = Some ''Unable to parse structured inspection; proceeding with default transformation.'',
       insights = Some empty_insights \<rparr>"

definition analyzeSourceImage ::
    "runtime \<Rightarrow> OpenAI \<Rightarrow> string \<Rightarrow> string \<Rightarrow> (string + AnalysisPayload) \<times> api_call list" where
  "analyzeSourceImage rt client imageBase64 mimeType =
     (case responses_create client (analysis_request imageBase64 mimeType) of
        Inl e \<Rightarrow> (Inl e, [analysis_request imageBase64 mimeType])
      | Inr res \<Rightarrow>
          (case cleanJson (JSON_parse rt) (extractMessageText res) of
             None \<Rightarrow> (Inr default_analysis, [analysis_request imageBase64 mimeType])
           | Some parsed \<Rightarrow> (Inr parsed, [analysis_request imageBase64 mimeType])))"

definition generation_request :: "string \<Rightarrow> api_call" where
  "generation_request p = ImagesGenerate ''gpt-image-1'' p ''1024x1024'' ''high'' ''natural''"

definition generateShot :: "OpenAI \<Rightarrow> string \<Rightarrow> (string + string) \<times> api_call list" where
  "generateShot client p =
     (case images_generate client (generation_request p) of
        Inl e \<Rightarrow> (Inl e, [generation_request p])
      | Inr response \<Rightarrow>
          (case (case data response of None \<Rightarrow> None | Some [] \<Rightarrow> None | Some (d # ds) \<Rightarrow> Some d) of
             None \<Rightarrow> (Inl ''Image generation returned no data.'', [generation_request p])
           | Some d \<Rightarrow>
               (if truthy (b64_json d)
                then (Inr (''data:image/png;base64,'' @ (case b64_json d of Some b \<Rightarrow> b | None \<Rightarrow> [])),
                      [generation_request p])
                else (Inl ''Image generation returned no data.'', [generation_request p]))))"

definition verification_request :: "string \<Rightarrow> api_call" where
  "verification_request imageBase64 =
     ResponsesCreate ''gpt-4.1-mini''
       (''You are a marine art director. Inspect the generated photo for lingering trailer fragments, warped hulls, or water physics issues. '' @
        ''Respond with a short paragraph describing quality, authenticity, and any detected issues. Flag any problem explicitly.'')
       (''data:image/png;base64,'' @ imageBase64)
       ''high'' ''0.3''"

definition verifyComposite :: "OpenAI \<Rightarrow> string \<Rightarrow> (string + string) \<times> api_call list" where
  "verifyComposite client imageBase64 =
     (case responses_create client (verification_request imageBase64) of
        Inl e \<Rightarrow> (Inl e, [verification_request imageBase64])
      | Inr res \<Rightarrow> (Inr (extractMessageText res), [verification_request imageBase64]))"

subsection \<open>The lexicons\<close>

definition lensLexicon :: "(string \<times> string) list" where
  "lensLexicon =
     [(''wide-immersive'', ''ultra-wide 18mm lens, low horizon, cinematic atmosphere, immersive scale''),
      (''action-zoom'', ''high-speed telephoto capture, sweeping rooster tail, tack sharp hull detail''),
      (''luxury-showcase'', ''mid focal length lifestyle showcase, golden hour polish, upscale staging'')]"

definition dynamicDirectives :: "(string \<times> string) list" where
  "dynamicDirectives =
     [(''running'', ''capture hull-on-plane, spray arcs, strong diagonal energy, sense of motion''),
      (''anchored'', ''quiet anchorage, glassy reflections, relaxed lifestyle moment with tasteful props''),
      (''harbor'', ''arrival sequence past iconic marina landmarks, soft dusk lighting, warm hospitality'')]"

text \<open>
  Both lexicons are object literals, and \<open>lexicon[key]\<close> reads a property: where the object
  has no property of its own under the key, the lookup goes on to \<open>Object.prototype\<close>.
  \<open>Object_prototype\<close> lists the properties found there, each with the text that a template
  literal makes of it on V8, the engine the route runs on: a native function prints as its
  source text, and \<open>__proto__\<close> yields the prototype object itself.
\<close>

definition native_function :: "string \<Rightarrow> string" where
  "native_function name = ''function '' @ name @ ''() { [native code] }''"

definition Object_prototype :: "(string \<times> string) list" where
  "Object_prototype =
     [(''constructor'', native_function ''Object''),
      (''__defineGetter__'', native_function ''__defineGetter__''),
      (''__defineSetter__'', native_function ''__defineSetter__''),
      (''hasOwnProperty'', native_function ''hasOwnProperty''),
      (''__lookupGetter__'', native_function ''__lookupGetter__''),
      (''__lookupSetter__'', native_function ''__lookupSetter__''),
      (''isPrototypeOf'', native_function ''isPrototypeOf''),
      (''propertyIsEnumerable'', native_function ''propertyIsEnumerable''),
      (''toString'', native_function ''toString''),
      (''valueOf'', native_function ''valueOf''),
      (''__proto__'', ''[object Object]''),
      (''toLocaleString'', native_function ''toLocaleString'')]"

definition property :: "(string \<times> string) list \<Rightarrow> string \<Rightarrow> string option" where
  "property obj key =
     (case map_of obj key of Some v \<Rightarrow> Some v | None \<Rightarrow> map_of Object_prototype key)"

text \<open>\<open>lexicon[key] ?? lexicon[fallback]\<close>, as the template literal prints it.\<close>

definition directive :: "(string \<times> string) list \<Rightarrow> string \<Rightarrow> string \<Rightarrow> string" where
  "directive lexicon key fallback =
     (case property lexicon key of
        Some v \<Rightarrow> v
      | None \<Rightarrow> (case property lexicon fallback of Some v \<Rightarrow> v | None \<Rightarrow> ''undefined''))"

subsection \<open>Reading the form\<close>

text \<open>\<open>form.get(name)\<close> is the first entry under the name, \<open>null\<close> when there is none.\<close>

definition form_get :: "form \<Rightarrow> string \<Rightarrow> form_value option" where
  "form_get form name = map_of form name"

text \<open>\<open>(form.get(name) as string) || fallback\<close>: the cast checks nothing, so an entry that
  is a file stays one; only \<open>null\<close> and the empty string are falsy.\<close>

definition or_default :: "form_value option \<Rightarrow> string \<Rightarrow> form_value" where
  "or_default v fallback =
     (case v of
        None \<Rightarrow> FText fallback
      | Some (FText t) \<Rightarrow> (if t = [] then FText fallback else FText t)
      | Some (FFile f) \<Rightarrow> FFile f)"

text \<open>The string a template literal or a property key makes of a form value.\<close>

definition to_text :: "form_value \<Rightarrow> string" where
  "to_text v = (case v of FText t \<Rightarrow> t | FFile f \<Rightarrow> ''[object File]'')"

definition location_of :: "form \<Rightarrow> form_value" where
  "location_of form = or_default (form_get form ''location'') ''Local waterways''"

definition lens_of :: "form \<Rightarrow> form_value" where
  "lens_of form = or_default (form_get form ''lens'') ''wide-immersive''"

definition dynamic_of :: "form \<Rightarrow> form_value" where
  "dynamic_of form = or_default (form_get form ''dynamic'') ''running''"

definition includeInteriors_of :: "form \<Rightarrow> bool" where
  "includeInteriors_of form = (form_get form ''includeInteriors'' = Some (FText ''true''))"

subsection \<open>The prompt\<close>

fun join :: "string \<Rightarrow> string list \<Rightarrow> string" where
  "join sep [] = []"
| "join sep [x] = x"
| "join sep (x # y # ys) = x @ sep @ join sep (y # ys)"

definition interior_sentence :: string where
  "interior_sentence = ''Deliver a secondary interior vantage with luxurious wide-angle cabin framing.''"

definition exterior_sentence :: string where
  "exterior_sentence = ''Focus solely on exterior hero shot.''"

definition reinforcement :: "bool \<Rightarrow> string" where
  "reinforcement includeInteriors =
     join '' ''
       [''No trailers, parking lots, or dealership backgrounds.'',
        ''Boat dominates the frame with authentic reflections and crisp wake physics.'',
        ''Match hull lines, colors, and trim accents from the source description.'',
        (if includeInteriors then interior_sentence else exterior_sentence)]"

definition nullish :: "string option \<Rightarrow> string \<Rightarrow> string" where
  "nullish v fallback = (case v of Some t \<Rightarrow> t | None \<Rightarrow> fallback)"

definition build_prompt ::
    "form_value \<Rightarrow> string \<Rightarrow> string \<Rightarrow> InsightBundle \<Rightarrow> bool \<Rightarrow> string" where
  "build_prompt location lensDirective motionDirective ins includeInteriors =
     join '' ''
       [''Transform this vessel into a premium marketing render shot on the water.'',
        ''Locale: '' @ to_text location @ ''.'',
        ''Lens profile: '' @ lensDirective @ ''.'',
        ''Shot dynamic: '' @ motionDirective @ ''.'',
        ''Boat summary: '' @ nullish (boatOverview ins) ''modern powerboat.'',
        ''Key focal points: '' @ nullish (visualFocalPoints ins) ''sleek hull, helm, passengers if present.'',
        ''Local cues: '' @ nullish (locationAdaptation ins) ''match regional water coloration and skyline.'',
        reinforcement includeInteriors,
        ''Hyper-realistic photographic lighting, zero distortion, glossy magazine quality.'']"

text \<open>The prompt of a form and an insights bundle, with the directives looked up as
  \<open>POST\<close> does.\<close>

definition prompt_of :: "form \<Rightarrow> InsightBundle \<Rightarrow> string" where
  "prompt_of form ins =
     build_prompt (location_of form)
       (directive lensLexicon (to_text (lens_of form)) ''wide-immersive'')
       (directive dynamicDirectives (to_text (dynamic_of form)) ''running'')
       ins (includeInteriors_of form)"

subsection \<open>\<open>POST\<close>\<close>

text \<open>\<open>text.split(sep)\<close> for a separator of one character.\<close>

fun split :: "char \<Rightarrow> string \<Rightarrow> string list" where
  "split sep [] = [[]]"
| "split sep (x # xs) =
     (if x = sep then [] # split sep xs
      else (case split sep xs of [] \<Rightarrow> [[x]] | piece # pieces \<Rightarrow> (x # piece) # pieces))"

definition second_piece :: "string \<Rightarrow> string" where
  "second_piece t = (case split CHR '','' t of a # b # rest \<Rightarrow> b | _ \<Rightarrow> [])"

definition json :: "nat \<Rightarrow> response_body \<Rightarrow> http_response" where
  "json st b = \<lparr> http_status = st, http_body = b \<rparr>"

definition insights_TypeError :: string where
  "insights_TypeError =
     ''Cannot read properties of undefined (reading '' @ [CHR 0x27] @ ''boatOverview'' @ [CHR 0x27] @ '')''"

text \<open>
  The route returns a response, or throws (\<^term>\<open>Inl\<close>, which the framework answers with
  a status 500 of its own), and in both cases the requests it sent to the provider, in order.
\<close>

definition POST ::
    "runtime \<Rightarrow> OpenAI \<Rightarrow> request \<Rightarrow> (string + http_response) \<times> api_call list" where
  "POST rt openai req =
     (if \<not> truthy (OPENAI_API_KEY req)
      then (Inr (json 500 (ErrorBody ''OPENAI_API_KEY missing'' None)), [])
      else
        (case formData req of
           Inl e \<Rightarrow> (Inl e, [])
         | Inr form \<Rightarrow>
             (case form_get form ''image'' of
                Some (FFile image_file) \<Rightarrow>
                  (let base64 = toBase64 rt (file_bytes image_file);
                       mimeType = (if file_type image_file = [] then ''image/jpeg'' else file_type image_file)
                   in case analyzeSourceImage rt openai base64 mimeType of
                        (Inl e, calls1) \<Rightarrow> (Inl e, calls1)
                      | (Inr analysis, calls1) \<Rightarrow>
                          (if shouldReject analysis
                           then (Inr (json 422 (ErrorBody ''Source image rejected'' (rejectionReason analysis))),
                                 calls1)
                           else
                             (case insights analysis of
                                None \<Rightarrow> (Inl insights_TypeError, calls1)
                              | Some ins \<Rightarrow>
                                  (case generateShot openai (prompt_of form ins) of
                                     (Inl e, calls2) \<Rightarrow> (Inl e, calls1 @ calls2)
                                   | (Inr finalImage, calls2) \<Rightarrow>
                                       (case verifyComposite openai (second_piece finalImage) of
                                          (Inl e, calls3) \<Rightarrow> (Inl e, calls1 @ calls2 @ calls3)
                                        | (Inr report, calls3) \<Rightarrow>
                                            (Inr (json 200 (ResultBody
                                               \<lparr> generatedImage = finalImage,
                                                 prompt = prompt_of form ins,
                                                 payload_summary = nullish (summary analysis)
                                                   ''Marine transformation and trailer cleanup completed successfully.'',
                                                 qualityReport = report,
                                                 payload_insights = Some ins \<rparr>)),
                                             calls1 @ calls2 @ calls3))))))
              | _ \<Rightarrow> (Inr (json 400 (ErrorBody ''Missing upload'' None)), []))))"

subsection \<open>The response as the browser's \<open>fetch\<close> shows it\<close>

text \<open>
  \<open>response.ok\<close> holds for the statuses 200 to 299. \<open>NextResponse.json\<close> writes the body with
  \<open>JSON.stringify\<close>: \<open>JSON_string\<close> is its quoting of a string (ECMA-262, QuoteJSONString,
  on UTF-8 bytes), and a property that is \<open>undefined\<close> is left out of the object.
\<close>

definition response_ok :: "nat \<Rightarrow> bool" where
  "response_ok st = (200 \<le> st \<and> st \<le> 299)"

definition hex_digit :: "nat \<Rightarrow> char" where
  "hex_digit n = (if n < 10 then char_of (48 + n) else char_of (87 + n))"

definition quote_char :: "char \<Rightarrow> string" where
  "quote_char c =
     (if c = CHR 0x08 then [CHR 0x5C, CHR ''b'']
      else if c = CHR 0x09 then [CHR 0x5C, CHR ''t'']
      else if c = CHR 0x0A then [CHR 0x5C, CHR ''n'']
      else if c = CHR 0x0C then [CHR 0x5C, CHR ''f'']
      else if c = CHR 0x0D then [CHR 0x5C, CHR ''r'']
      else if c = CHR 0x22 then [CHR 0x5C, CHR 0x22]
      else if c = CHR 0x5C then [CHR 0x5C, CHR 0x5C]
      else if (of_char c :: nat) < 32 then
        [CHR 0x5C, CHR ''u'', CHR ''0'', CHR ''0'',
         hex_digit ((of_char c :: nat) div 16), hex_digit ((of_char c :: nat) mod 16)]
      else [c])"

definition JSON_string :: "string \<Rightarrow> string" where
  "JSON_string t = [CHR 0x22] @ concat (map quote_char t) @ [CHR 0x22]"

text \<open>\<open>response.text()\<close> of a body \<open>{ error, reason }\<close>.\<close>

definition error_body_text :: "string \<Rightarrow> string option \<Rightarrow> string" where
  "error_body_text err reason =
     ''{'' @ JSON_string ''error'' @ '':'' @ JSON_string err @
     (case reason of None \<Rightarrow> [] | Some r \<Rightarrow> '','' @ JSON_string ''reason'' @ '':'' @ JSON_string r) @
     ''}''"

section \<open>The uploader component\<close>

subsection \<open>The queue\<close>

datatype ProcessingStatus = Idle | Ready | Analyzing | Generating | Verifying | Complete | Error

record ProcessedResult =
  finalImage :: string
  result_prompt :: string
  result_summary :: string
  result_qualityReport :: string
  result_insights :: InsightBundle

record QueueItem =
  item_id :: string
  item_file :: File
  previewUrl :: string
  status :: ProcessingStatus
  logs :: "string list"
  result :: "ProcessedResult option"
  error :: "string option"

text \<open>\<open>Partial<QueueItem>\<close>: a property is \<^term>\<open>None\<close> when the object does not have it.\<close>

record Partial_QueueItem =
  new_id :: "string option"
  new_file :: "File option"
  new_previewUrl :: "string option"
  new_status :: "ProcessingStatus option"
  new_logs :: "string list option"
  new_result :: "ProcessedResult option"
  new_error :: "string option"

definition no_updates :: Partial_QueueItem where
  "no_updates =
     \<lparr> new_id = None, new_file = None, new_previewUrl = None, new_status = None,
       new_logs = None, new_result = None, new_error = None \<rparr>"

text \<open>\<open>{ ...item, ...updates }\<close>, then the logs of the update appended to those of the item.\<close>

definition merged :: "QueueItem \<Rightarrow> Partial_QueueItem \<Rightarrow> QueueItem" where
  "merged item updates =
     \<lparr> item_id = (case new_id updates of Some v \<Rightarrow> v | None \<Rightarrow> item_id item),
       item_file = (case new_file updates of Some v \<Rightarrow> v | None \<Rightarrow> item_file item),
       previewUrl = (case new_previewUrl updates of Some v \<Rightarrow> v | None \<Rightarrow> previewUrl item),
       status = (case new_status updates of Some v \<Rightarrow> v | None \<Rightarrow> status item),
       logs = (case new_logs updates of Some entries \<Rightarrow> logs item @ entries | None \<Rightarrow> logs item),
       result = (case new_result updates of Some v \<Rightarrow> Some v | None \<Rightarrow> result item),
       error = (case new_error updates of Some v \<Rightarrow> Some v | None \<Rightarrow> error item) \<rparr>"

text \<open>The functions below are the updaters handed to \<open>setQueue\<close>: from the previous queue to
  the next one.\<close>

definition updateQueueItem :: "string \<Rightarrow> Partial_QueueItem \<Rightarrow> QueueItem list \<Rightarrow> QueueItem list" where
  "updateQueueItem i updates prev =
     map (\<lambda>item. if item_id item \<noteq> i then item else merged item updates) prev"

definition appendLog :: "string \<Rightarrow> string \<Rightarrow> QueueItem list \<Rightarrow> QueueItem list" where
  "appendLog i entry = updateQueueItem i (no_updates\<lparr> new_logs := Some [entry] \<rparr>)"

definition removeItem :: "string \<Rightarrow> QueueItem list \<Rightarrow> QueueItem list" where
  "removeItem i prev = filter (\<lambda>item. item_id item \<noteq> i) prev"

text \<open>
  \<open>handleFiles\<close> receives the files together with what the browser will answer for each:
  the identifier of \<open>crypto.randomUUID()\<close> and the address of \<open>URL.createObjectURL\<close>.
\<close>

definition supported :: "File \<times> string \<times> string \<Rightarrow> bool" where
  "supported f =
     (file_type (fst f) \<in> set [''image/jpeg'', ''image/png'', ''image/webp'', ''image/heic'', ''image/heif''])"

definition queued :: "File \<times> string \<times> string \<Rightarrow> QueueItem" where
  "queued f =
     \<lparr> item_id = fst (snd f), item_file = fst f, previewUrl = snd (snd f), status = Ready,
       logs = [''Queued for processing''], result = None, error = None \<rparr>"

definition handleFiles :: "(File \<times> string \<times> string) list option \<Rightarrow> QueueItem list \<Rightarrow> QueueItem list" where
  "handleFiles files prev =
     (case files of None \<Rightarrow> prev | Some fs \<Rightarrow> prev @ map queued (filter supported fs))"

definition readyForProcessing :: "QueueItem list \<Rightarrow> bool" where
  "readyForProcessing q =
     (length q > 0 \<and> (\<exists>item \<in> set q. status item = Idle \<or> status item = Ready))"

subsection \<open>The component and its passes\<close>

text \<open>
  \<open>world\<close> is the state of the component (\<open>queue\<close>, the four style parameters,
  \<open>isProcessing\<close>) with what runs around it: the invocations of \<open>processQueue\<close> that are
  suspended at their \<open>await fetch\<close> (\<open>running\<close>), and every request body sent so far
  (\<open>requests\<close>).

  \<open>processQueue\<close> is a closure of the render that created it: \<open>queue\<close>, \<open>location\<close>, \<open>lens\<close>,
  \<open>dynamic\<close> and \<open>includeInteriors\<close> in its body are the constants of that render. A \<open>pass\<close>
  holds them for one invocation: the captured style parameters, and in \<open>pending\<close> the items of
  the captured queue from the one whose request is in flight onwards. The state is changed
  only through \<open>setQueue\<close> and \<open>setIsProcessing\<close>; an updater given to \<open>setQueue\<close> works on the
  queue current when it is applied.

  Everything between two \<open>await\<close>s runs without interleaving, so it is one step here. The
  click handler is that of the latest render, which shows the current state.
\<close>

record pass =
  pending :: "QueueItem list"
  pass_location :: string
  pass_lens :: string
  pass_dynamic :: string
  pass_includeInteriors :: bool

record world =
  queue :: "QueueItem list"
  location :: string
  lens :: string
  dynamic :: string
  includeInteriors :: bool
  isProcessing :: bool
  running :: "pass list"
  requests :: "form list"

definition initial :: world where
  "initial =
     \<lparr> queue = [], location = [], lens = ''wide-immersive'', dynamic = ''running'',
       includeInteriors = True, isProcessing = False, running = [], requests = [] \<rparr>"

text \<open>
  How one \<open>fetch\<close> of \<open>processQueue\<close> ends: a response that is not \<open>ok\<close> with its text; a
  response that is \<open>ok\<close> with what \<open>response.json()\<close> resolves to (\<^term>\<open>None\<close> for \<open>null\<close>,
  whose properties cannot be read); or an exception from \<open>fetch\<close>, \<open>text()\<close> or \<open>json()\<close>,
  with its message when it is an \<open>Error\<close>.
\<close>

datatype fetch_outcome =
  NotOk string
| OkJson "process_payload option"
| Thrown "string option"

text \<open>The emoji that open the log lines, as UTF-8 bytes.\<close>

definition rocket :: string where "rocket = [CHR 0xF0, CHR 0x9F, CHR 0x9A, CHR 0x80]"
definition magnifier :: string where "magnifier = [CHR 0xF0, CHR 0x9F, CHR 0x94, CHR 0x8D]"
definition palette :: string where "palette = [CHR 0xF0, CHR 0x9F, CHR 0x8E, CHR 0xA8]"
definition repeat_sign :: string where "repeat_sign = [CHR 0xF0, CHR 0x9F, CHR 0x94, CHR 0x81]"
definition cross_mark :: string where "cross_mark = [CHR 0xE2, CHR 0x9D, CHR 0x8C]"

definition String_of_bool :: "bool \<Rightarrow> string" where
  "String_of_bool b = (if b then ''true'' else ''false'')"

definition form_of :: "pass \<Rightarrow> QueueItem \<Rightarrow> form" where
  "form_of p item =
     [(''image'', FFile (item_file item)),
      (''location'', FText (pass_location p)),
      (''lens'', FText (pass_lens p)),
      (''dynamic'', FText (pass_dynamic p)),
      (''includeInteriors'', FText (String_of_bool (pass_includeInteriors p)))]"

text \<open>The updaters that the loop body queues before its \<open>fetch\<close>, applied in order.\<close>

definition before_fetch :: "QueueItem \<Rightarrow> QueueItem list \<Rightarrow> QueueItem list" where
  "before_fetch item prev =
     fold (\<lambda>updater q. updater q)
       [appendLog (item_id item) (rocket @ '' Starting processing pipeline''),
        updateQueueItem (item_id item) (no_updates\<lparr> new_status := Some Analyzing \<rparr>),
        appendLog (item_id item) (magnifier @ '' Extracting vessel details and trailer remnants'')]
       prev"

definition null_TypeError :: string where
  "null_TypeError =
     ''Cannot read properties of null (reading '' @ [CHR 0x27] @ ''generatedImage'' @ [CHR 0x27] @ '')''"

definition failed :: "string \<Rightarrow> string \<Rightarrow> (QueueItem list \<Rightarrow> QueueItem list) list" where
  "failed i message =
     [appendLog i (cross_mark @ '' '' @ message),
      updateQueueItem i (no_updates\<lparr> new_status := Some Error, new_error := Some message \<rparr>)]"

definition rendering :: "string \<Rightarrow> (QueueItem list \<Rightarrow> QueueItem list) list" where
  "rendering i =
     [updateQueueItem i (no_updates\<lparr> new_status := Some Generating \<rparr>),
      appendLog i (palette @ '' Rendering cinematic water shot''),
      updateQueueItem i (no_updates\<lparr> new_status := Some Verifying \<rparr>),
      appendLog i (repeat_sign @ '' Double-checking trailer removal and composition'')]"

text \<open>The updaters that the loop body queues once its \<open>fetch\<close> has ended, applied in
  order.\<close>

definition after_fetch :: "fetch_outcome \<Rightarrow> QueueItem \<Rightarrow> QueueItem list \<Rightarrow> QueueItem list" where
  "after_fetch outcome item prev =
     fold (\<lambda>updater q. updater q)
       (case outcome of
          NotOk t \<Rightarrow>
            [appendLog (item_id item) (cross_mark @ '' Failed: '' @ t),
             updateQueueItem (item_id item) (no_updates\<lparr> new_status := Some Error, new_error := Some t \<rparr>)]
        | OkJson (Some payload) \<Rightarrow>
            rendering (item_id item) @
            [updateQueueItem (item_id item)
               (no_updates\<lparr> new_status := Some Complete,
                  new_result := Some
                    \<lparr> finalImage = generatedImage payload,
                      result_prompt = prompt payload,
                      result_summary = payload_summary payload,
                      result_qualityReport = qualityReport payload,
                      result_insights =
                        (case payload_insights payload of
                           Some ins \<Rightarrow> ins
                         | None \<Rightarrow> empty_insights) \<rparr> \<rparr>)]
        | OkJson None \<Rightarrow> rendering (item_id item) @ failed (item_id item) null_TypeError
        | Thrown (Some message) \<Rightarrow> failed (item_id item) message
        | Thrown None \<Rightarrow> failed (item_id item) ''Unknown processing error'')
       prev"

text \<open>
  The \<open>for\<close> loop from the item \<open>items\<close> starts with: it skips the items that the captured
  queue shows as complete, and at the first other item it queues the updaters, sends the
  request and suspends; past the last item it resets \<open>isProcessing\<close> and the pass is over.
\<close>

fun continue_pass :: "pass \<Rightarrow> QueueItem list \<Rightarrow> world \<Rightarrow> world" where
  "continue_pass p [] w = w\<lparr> isProcessing := False \<rparr>"
| "continue_pass p (item # rest) w =
     (if status item = Complete then continue_pass p rest w
      else w\<lparr> queue := before_fetch item (queue w),
              requests := requests w @ [form_of p item],
              running := running w @ [p\<lparr> pending := item # rest \<rparr>] \<rparr>)"

text \<open>What the closure \<open>processQueue\<close> of the current render has captured.\<close>

definition capture :: "world \<Rightarrow> pass" where
  "capture w =
     \<lparr> pending = queue w, pass_location = location w, pass_lens = lens w,
       pass_dynamic = dynamic w, pass_includeInteriors = includeInteriors w \<rparr>"

definition processQueue :: "world \<Rightarrow> world" where
  "processQueue w =
     (if \<not> readyForProcessing (queue w) \<or> isProcessing w then w
      else continue_pass (capture w) (queue w) (w\<lparr> isProcessing := True \<rparr>))"

text \<open>The \<open>fetch\<close> of the \<open>k\<close>-th suspended pass ends: the rest of the loop body runs, then
  the loop goes on.\<close>

definition settle :: "nat \<Rightarrow> fetch_outcome \<Rightarrow> world \<Rightarrow> world" where
  "settle k outcome w =
     (if k < length (running w) then
        (case pending (running w ! k) of
           [] \<Rightarrow> w
         | item # rest \<Rightarrow>
             continue_pass (running w ! k) rest
               (w\<lparr> queue := after_fetch outcome item (queue w),
                   running := take k (running w) @ drop (Suc k) (running w) \<rparr>))
      else w)"

datatype event =
  Launch
| Settle nat fetch_outcome
| HandleFiles "(File \<times> string \<times> string) list option"
| RemoveItem string
| ClearQueue
| SetLocation string
| SetLens string
| SetDynamic string
| SetIncludeInteriors bool

fun step :: "world \<Rightarrow> event \<Rightarrow> world" where
  "step w Launch = processQueue w"
| "step w (Settle k outcome) = settle k outcome w"
| "step w (HandleFiles files) = w\<lparr> queue := handleFiles files (queue w) \<rparr>"
| "step w (RemoveItem i) = w\<lparr> queue := removeItem i (queue w) \<rparr>"
| "step w ClearQueue = w\<lparr> queue := [], isProcessing := False \<rparr>"
| "step w (SetLocation v) = w\<lparr> location := v \<rparr>"
| "step w (SetLens v) = w\<lparr> lens := v \<rparr>"
| "step w (SetDynamic v) = w\<lparr> dynamic := v \<rparr>"
| "step w (SetIncludeInteriors v) = w\<lparr> includeInteriors := v \<rparr>"

definition run :: "world \<Rightarrow> event list \<Rightarrow> world" where
  "run w events = foldl step w events"

text \<open>
  When an event can happen: a \<open>fetch\<close> ends only for a pass that is suspended; the button
  \<open>Clear Queue\<close> is disabled while \<open>isProcessing\<close>; and \<open>crypto.randomUUID()\<close> gives the
  accepted files identifiers that differ from each other and from every identifier in the
  queue or held by a running pass.
\<close>

definition known_ids :: "world \<Rightarrow> string set" where
  "known_ids w = item_id ` set (queue w) \<union> item_id ` (\<Union>p \<in> set (running w). set (pending p))"

fun enabled :: "world \<Rightarrow> event \<Rightarrow> bool" where
  "enabled w (Settle k outcome) = (k < length (running w))"
| "enabled w ClearQueue = (\<not> isProcessing w)"
| "enabled w (HandleFiles None) = True"
| "enabled w (HandleFiles (Some fs)) =
     (distinct (map (\<lambda>f. fst (snd f)) (filter supported fs)) \<and>
      set (map (\<lambda>f. fst (snd f)) (filter supported fs)) \<inter> known_ids w = {})"
| "enabled w e = True"

inductive reachable :: "world \<Rightarrow> bool" where
  reachable_initial: "reachable initial"
| reachable_step: "reachable w \<Longrightarrow> enabled w e \<Longrightarrow> reachable (step w e)"

text \<open>\<open>possible w events\<close>: each event of the list can happen in the state it meets.\<close>

fun possible :: "world \<Rightarrow> event list \<Rightarrow> bool" where
  "possible w [] = True"
| "possible w (e # events) = (enabled w e \<and> possible (step w e) events)"

subsection \<open>Notions used in the proofs\<close>

text \<open>\<open>touch i g\<close> rewrites the items with identifier \<open>i\<close> by \<open>g\<close> and leaves the others
  alone: the form of every updater that \<open>processQueue\<close> queues. \<open>todo q\<close> are the items that
  a pass over \<open>q\<close> does not skip.\<close>

definition touch :: "string \<Rightarrow> (QueueItem \<Rightarrow> QueueItem) \<Rightarrow> QueueItem list \<Rightarrow> QueueItem list" where
  "touch i g q = map (\<lambda>x. if item_id x \<noteq> i then x else g x) q"

definition todo :: "QueueItem list \<Rightarrow> QueueItem list" where
  "todo q = filter (\<lambda>item. status item \<noteq> Complete) q"

text \<open>What the updaters queued before a \<open>fetch\<close> make of the item.\<close>

definition started :: "QueueItem \<Rightarrow> QueueItem" where
  "started x =
     x\<lparr> status := Analyzing,
        logs := logs x @ [rocket @ '' Starting processing pipeline'',
                          magnifier @ '' Extracting vessel details and trailer remnants''] \<rparr>"

text \<open>What the updaters queued after a \<open>fetch\<close> make of the item, by outcome.\<close>

definition settled :: "fetch_outcome \<Rightarrow> QueueItem \<Rightarrow> QueueItem" where
  "settled outcome x =
     (case outcome of
        NotOk t \<Rightarrow> x\<lparr> status := Error, error := Some t, logs := logs x @ [cross_mark @ '' Failed: '' @ t] \<rparr>
      | OkJson (Some payload) \<Rightarrow>
          x\<lparr> status := Complete,
             result := Some
               \<lparr> finalImage = generatedImage payload, result_prompt = prompt payload,
                 result_summary = payload_summary payload, result_qualityReport = qualityReport payload,
                 result_insights = (case payload_insights payload of Some ins \<Rightarrow> ins | None \<Rightarrow> empty_insights) \<rparr>,
             logs := logs x @ [palette @ '' Rendering cinematic water shot'',
                               repeat_sign @ '' Double-checking trailer removal and composition''] \<rparr>
      | OkJson None \<Rightarrow>
          x\<lparr> status := Error, error := Some null_TypeError,
             logs := logs x @ [palette @ '' Rendering cinematic water shot'',
                               repeat_sign @ '' Double-checking trailer removal and composition'',
                               cross_mark @ '' '' @ null_TypeError] \<rparr>
      | Thrown (Some message) \<Rightarrow>
          x\<lparr> status := Error, error := Some message, logs := logs x @ [cross_mark @ '' '' @ message] \<rparr>
      | Thrown None \<Rightarrow>
          x\<lparr> status := Error, error := Some ''Unknown processing error'',
             logs := logs x @ [cross_mark @ '' Unknown processing error''] \<rparr>)"

text \<open>
  \<open>suited q items\<close>: the items have distinct identifiers, and an item that the loop will not
  skip is not complete in the queue \<open>q\<close> either. \<open>consistent w\<close> is the invariant of the
  component: a result is attached exactly to the complete items; identifiers are distinct;
  at most one pass is suspended, and only while \<open>isProcessing\<close>; the item that a suspended
  pass waits for is one the loop did not skip, and its remaining items are suited to the
  queue.
\<close>

definition suited :: "QueueItem list \<Rightarrow> QueueItem list \<Rightarrow> bool" where
  "suited q items \<longleftrightarrow>
     distinct (map item_id items) \<and>
     (\<forall>j \<in> set items. status j \<noteq> Complete \<longrightarrow>
        (\<forall>x \<in> set q. item_id x = item_id j \<longrightarrow> status x \<noteq> Complete))"

definition consistent :: "world \<Rightarrow> bool" where
  "consistent w \<longleftrightarrow>
     (\<forall>x \<in> set (queue w). result x \<noteq> None \<longleftrightarrow> status x = Complete) \<and>
     distinct (map item_id (queue w)) \<and>
     (running w = [] \<or>
      (\<exists>p item rest. running w = [p] \<and> isProcessing w \<and> pending p = item # rest \<and>
         status item \<noteq> Complete \<and> suited (queue w) (item # rest)))"

text \<open>\<open>styled c n w\<close>: every suspended pass builds its request bodies as the pass \<open>c\<close> does,
  and every request sent after the first \<open>n\<close> is a body that \<open>c\<close> builds.\<close>

definition styled :: "pass \<Rightarrow> nat \<Rightarrow> world \<Rightarrow> bool" where
  "styled c n w \<longleftrightarrow>
     n \<le> length (requests w) \<and>
     (\<forall>p \<in> set (running w). form_of p = form_of c) \<and>
     (\<forall>r \<in> set (drop n (requests w)). \<exists>j. r = form_of c j)"

text \<open>\<open>grown q q'\<close>: every item of \<open>q'\<close> continues an item of \<open>q\<close> with the same identifier,
  whose logs it still has at the front of its own.\<close>

definition grown :: "QueueItem list \<Rightarrow> QueueItem list \<Rightarrow> bool" where
  "grown q q' \<longleftrightarrow>
     (\<forall>y \<in> set q'. \<exists>x \<in> set q. item_id x = item_id y \<and> prefix (logs x) (logs y))"

section \<open>Sample inputs\<close>

text \<open>
  Concrete inputs at which the theorems below are instantiated. \<open>answering t\<close> is a provider
  that answers every \<open>responses.create\<close> with the text \<open>t\<close> and every image request with one
  image; \<open>malformed_reply\<close> is such a text, with a span in braces that is no JSON.
  \<open>sample_runtime\<close> parses one text, \<open>rejecting_text\<close>, as \<open>JSON.parse\<close> does, and is
  otherwise used only on spans at which \<open>JSON.parse\<close> throws.
\<close>

definition sample_file :: File where
  "sample_file = \<lparr> file_name = ''boat.jpg'', file_type = ''image/jpeg'', file_bytes = ''abc'' \<rparr>"

definition answering :: "string \<Rightarrow> OpenAI" where
  "answering t =
     \<lparr> responses_create =
         (\<lambda>c. Inr (Output (Some [\<lparr> content = Some [\<lparr> block_type = Some ''output_text'', block_text = Some t \<rparr>] \<rparr>]))),
       images_generate = (\<lambda>c. Inr \<lparr> data = Some [\<lparr> b64_json = Some ''AAAA'' \<rparr>] \<rparr>) \<rparr>"

definition rejecting_text :: string where
  "rejecting_text =
     ''{'' @ JSON_string ''shouldReject'' @ '':true,'' @
     JSON_string ''rejectionReason'' @ '':'' @ JSON_string ''trailer visible'' @ ''}''"

definition rejecting_analysis :: AnalysisPayload where
  "rejecting_analysis =
     \<lparr> shouldReject = True, rejectionReason = Some ''trailer visible'', summary = None, insights = None \<rparr>"

definition sample_runtime :: runtime where
  "sample_runtime =
     \<lparr> JSON_parse = (\<lambda>s. if s = rejecting_text then Some rejecting_analysis else None),
       toBase64 = (\<lambda>bytes. if bytes = ''abc'' then ''YWJj'' else []) \<rparr>"

definition malformed_reply :: string where
  "malformed_reply = ''Here you go: {x: false,}''"

definition sample_request :: "form \<Rightarrow> request" where
  "sample_request form = \<lparr> OPENAI_API_KEY = Some ''sk-sample'', formData = Inr form \<rparr>"

text \<open>
  Two accepted uploads, a success body, and the states of a pass over them: \<open>launched\<close> has
  the first request in flight, \<open>finished\<close> is the state after the first item succeeded and
  the second was refused.
\<close>

definition sample_uploads :: "(File \<times> string \<times> string) list option" where
  "sample_uploads = Some [(sample_file, ''id-1'', ''blob:1''), (sample_file, ''id-2'', ''blob:2'')]"

definition sample_payload :: process_payload where
  "sample_payload =
     \<lparr> generatedImage = ''data:image/png;base64,AAAA'', prompt = ''Transform this vessel.'',
       payload_summary = ''A runabout.'', qualityReport = ''No trailer left.'',
       payload_insights = None \<rparr>"

definition launched :: world where
  "launched = run initial [HandleFiles sample_uploads, Launch]"

definition finished :: world where
  "finished = run launched [Settle 0 (OkJson (Some sample_payload)), Settle 0 (NotOk ''Internal Server Error'')]"

section \<open>Properties of \<open>cleanJson\<close>\<close>

lemma cleanJson_parsed_span:
  "cleanJson parse src = Option.bind (parsed_span src) parse"
  by (simp add: cleanJson_def parsed_span_def split: option.splits)

lemma indexOf_None: "indexOf xs c = None \<longleftrightarrow> c \<notin> set xs"
  by (induction xs) auto

lemma lastIndexOf_None: "lastIndexOf xs c = None \<longleftrightarrow> c \<notin> set xs"
  by (induction xs) (auto split: option.splits)

lemma indexOf_append: "c \<notin> set a \<Longrightarrow> indexOf (a @ c # r) c = Some (length a)"
  by (induction a) auto

lemma lastIndexOf_append: "c \<notin> set b \<Longrightarrow> lastIndexOf (a @ c # b) c = Some (length a)"
  by (induction a) (auto simp: lastIndexOf_None split: option.splits)

lemma slice_append: "slice (a @ x) (length a) (length a + n) = take n x"
  by (simp add: slice_def)

lemma lastIndexOf_less: "lastIndexOf xs c = Some k \<Longrightarrow> k < length xs"
  by (induction xs arbitrary: k) (auto split: option.splits if_splits)

lemma lastIndexOf_append_absent: "c \<notin> set ys \<Longrightarrow> lastIndexOf (xs @ ys) c = lastIndexOf xs c"
  by (induction xs) (auto simp: lastIndexOf_None split: option.splits)

lemma parsed_span_None:
  assumes "CHR ''{'' \<notin> set src \<or> CHR ''}'' \<notin> set src"
  shows "parsed_span src = None"
proof -
  from assms have "indexOf src CHR ''{'' = None \<or> lastIndexOf src CHR ''}'' = None"
    by (simp add: indexOf_None lastIndexOf_None)
  then show ?thesis
    by (auto simp: parsed_span_def cleanJson_def split: option.splits)
qed

lemma parsed_span_between:
  assumes "CHR ''{'' \<notin> set a" and "CHR ''}'' \<notin> set b"
  shows "parsed_span (a @ ''{'' @ m @ ''}'' @ b) = Some (''{'' @ m @ ''}'')"
proof -
  have i: "indexOf (a @ ''{'' @ m @ ''}'' @ b) CHR ''{'' = Some (length a)"
    using indexOf_append [OF assms(1)] by simp
  have "lastIndexOf ((a @ ''{'' @ m) @ CHR ''}'' # b) CHR ''}'' = Some (length (a @ ''{'' @ m))"
    by (rule lastIndexOf_append [OF assms(2)])
  then have l: "lastIndexOf (a @ ''{'' @ m @ ''}'' @ b) CHR ''}'' = Some (length a + 1 + length m)"
    by simp
  have "slice (a @ (''{'' @ m @ ''}'' @ b)) (length a) (length a + (length m + 2)) =
        take (length m + 2) (''{'' @ m @ ''}'' @ b)"
    by (rule slice_append)
  then have "slice (a @ ''{'' @ m @ ''}'' @ b) (length a) (length a + 1 + length m + 1) = ''{'' @ m @ ''}''"
    by (simp add: add.commute add.left_commute)
  with i l show ?thesis
    by (simp add: parsed_span_def cleanJson_def)
qed

lemma parsed_span_crossed:
  assumes "CHR ''{'' \<notin> set a" and "CHR ''}'' \<in> set a" and "CHR ''}'' \<notin> set b"
  shows "parsed_span (a @ ''{'' @ b) = Some []"
proof -
  have i: "indexOf (a @ ''{'' @ b) CHR ''{'' = Some (length a)"
    using indexOf_append [OF assms(1)] by simp
  have "lastIndexOf (a @ ''{'' @ b) CHR ''}'' = lastIndexOf a CHR ''}''"
    using assms(3) by (simp add: lastIndexOf_append_absent)
  moreover obtain k where k: "lastIndexOf a CHR ''}'' = Some k"
    using assms(2) lastIndexOf_None [of a "CHR ''}''"] by auto
  ultimately have l: "lastIndexOf (a @ ''{'' @ b) CHR ''}'' = Some k" by simp
  from k have "k < length a" by (rule lastIndexOf_less)
  with i l show ?thesis
    by (simp add: parsed_span_def cleanJson_def slice_def)
qed

lemma indexOf_nth: "indexOf xs c = Some i \<Longrightarrow> i < length xs \<and> xs ! i = c"
  by (induction xs arbitrary: i) (auto split: if_splits)

text \<open>What \<open>cleanJson\<close> hands to \<open>JSON.parse\<close> is empty or begins with an opening brace: a
  parse that does not throw yields an object, which is truthy.\<close>

lemma parsed_span_shape:
  assumes "parsed_span s = Some x"
  shows "x = [] \<or> (\<exists>r. x = CHR ''{'' # r)"
proof -
  from assms obtain i j where i: "indexOf s CHR ''{'' = Some i" and x: "x = slice s i (j + 1)"
    by (auto simp: parsed_span_def cleanJson_def split: option.splits)
  from indexOf_nth [OF i] have "i < length s" "s ! i = CHR ''{''" by simp_all
  then have "drop i s = CHR ''{'' # drop (Suc i) s"
    using Cons_nth_drop_Suc [of i s] by simp
  then show ?thesis unfolding x slice_def by (cases "j + 1 - i") auto
qed

text \<open>
  Claim C6, as the specification has it: for every response text, the substring that
  \<open>cleanJson\<close> extracts and parses is the first balanced \<open>{...}\<close> span of the text. It fails on
  a text with two objects: \<open>cleanJson\<close> takes everything from the first opening brace to the
  last closing brace, and the first balanced span is the first object alone.
\<close>

theorem first_balanced_span_counterexample:
  "parsed_span ''{} and {}'' = Some ''{} and {}'' \<and>
   first_balanced_span ''{} and {}'' = Some ''{}'' \<and>
   parsed_span ''{} and {}'' \<noteq> first_balanced_span ''{} and {}''"
  by (simp add: parsed_span_def cleanJson_def slice_def)

text \<open>
  Claim C6, amended: \<open>cleanJson\<close> parses exactly the span it extracts, and that span runs from
  the first \<open>{\<close> of the text to its last \<open>}\<close>, both included. When the text lacks one of the
  two braces nothing is parsed and the result is \<open>null\<close>; when every \<open>}\<close> stands before the
  first \<open>{\<close> the span is empty.
\<close>

theorem cleanJson_first_to_last:
  "cleanJson parse src = Option.bind (parsed_span src) parse \<and>
   (CHR ''{'' \<notin> set src \<or> CHR ''}'' \<notin> set src \<longrightarrow> parsed_span src = None) \<and>
   (src = a @ ''{'' @ m @ ''}'' @ b \<and> CHR ''{'' \<notin> set a \<and> CHR ''}'' \<notin> set b \<longrightarrow>
      parsed_span src = Some (''{'' @ m @ ''}'')) \<and>
   (src = a @ ''{'' @ b \<and> CHR ''{'' \<notin> set a \<and> CHR ''}'' \<in> set a \<and> CHR ''}'' \<notin> set b \<longrightarrow>
      parsed_span src = Some [])"
  using cleanJson_parsed_span [of parse src] parsed_span_None [of src]
    parsed_span_between [of a b m] parsed_span_crossed [of a b]
  by blast

theorem cleanJson_first_to_last_witness:
  "cleanJson Some ''note {x} and {y} end'' = Some ''{x} and {y}'' \<and>
   parsed_span ''no braces'' = None \<and>
   parsed_span ''} then {'' = Some []"
proof -
  have 1: "parsed_span ''note {x} and {y} end'' = Some ''{x} and {y}''"
    using cleanJson_first_to_last [of Some "''note {x} and {y} end''" "''note ''" "''x} and {y''" "'' end''"]
    by simp
  have 2: "cleanJson Some ''note {x} and {y} end'' = Option.bind (parsed_span ''note {x} and {y} end'') Some"
    using cleanJson_first_to_last [of Some "''note {x} and {y} end''" "''note ''" "''x} and {y''" "'' end''"]
    by blast
  have 3: "parsed_span ''no braces'' = None"
    using cleanJson_first_to_last [of Some "''no braces''" "[]" "[]" "[]"] by simp
  have 4: "parsed_span ''} then {'' = Some []"
    using cleanJson_first_to_last [of Some "''} then {''" "''} then ''" "[]" "[]"] by simp
  from 1 2 3 4 show ?thesis by simp
qed

section \<open>Properties of the route\<close>

lemma sublist_slice: "sublist (slice s i j) s"
proof -
  have "sublist (take (j - i) (drop i s)) (drop i s)" by (rule sublist_take)
  moreover have "sublist (drop i s) s" by (rule sublist_drop)
  ultimately have "sublist (take (j - i) (drop i s)) s"
    by (rule sublist_order.order.trans)
  then show ?thesis by (simp add: slice_def)
qed

lemma parsed_span_sublist: "parsed_span s = Some x \<Longrightarrow> sublist x s"
  by (auto simp: parsed_span_def cleanJson_def sublist_slice split: option.splits)

lemma cleanJson_unparseable:
  assumes "\<forall>x. sublist x s \<longrightarrow> parse x = None"
  shows "cleanJson parse s = None"
proof (cases "parsed_span s")
  case None
  then show ?thesis by (simp add: cleanJson_parsed_span)
next
  case (Some x)
  then have "parse x = None" using assms parsed_span_sublist by blast
  with Some show ?thesis by (simp add: cleanJson_parsed_span)
qed

lemma analyze_default:
  assumes "responses_create openai (analysis_request b m) = Inr res"
    and "cleanJson (JSON_parse rt) (extractMessageText res) = None"
  shows "analyzeSourceImage rt openai b m = (Inr default_analysis, [analysis_request b m])"
  using assms by (simp add: analyzeSourceImage_def)

lemma snd_generateShot: "snd (generateShot openai p) = [generation_request p]"
  by (simp add: generateShot_def split: sum.splits option.splits list.splits)

lemma snd_verifyComposite: "snd (verifyComposite openai b) = [verification_request b]"
  by (simp add: verifyComposite_def split: sum.splits)

lemma snd_analyzeSourceImage: "snd (analyzeSourceImage rt openai b m) = [analysis_request b m]"
  by (simp add: analyzeSourceImage_def split: sum.splits option.splits)

lemma POST_after_analysis:
  assumes "truthy (OPENAI_API_KEY req)" and "formData req = Inr form"
    and "form_get form ''image'' = Some (FFile f)"
    and "analyzeSourceImage rt openai (toBase64 rt (file_bytes f))
           (if file_type f = [] then ''image/jpeg'' else file_type f) = (Inr analysis, calls)"
    and "\<not> shouldReject analysis" and "insights analysis = Some ins"
  shows "take (Suc (length calls)) (snd (POST rt openai req)) =
         calls @ [generation_request (prompt_of form ins)]"
proof -
  obtain r2 where g:
    "generateShot openai (prompt_of form ins) = (r2, [generation_request (prompt_of form ins)])"
    using snd_generateShot [of openai "prompt_of form ins"]
    by (cases "generateShot openai (prompt_of form ins)") simp
  show ?thesis
  proof (cases r2)
    case (Inl e)
    with assms g show ?thesis by (simp add: POST_def Let_def)
  next
    case (Inr img)
    obtain r3 c3 where v: "verifyComposite openai (second_piece img) = (r3, c3)"
      by (cases "verifyComposite openai (second_piece img)")
    with assms g Inr show ?thesis
      by (cases r3) (simp_all add: POST_def Let_def)
  qed
qed

lemma no_brace_unparseable:
  "CHR ''{'' \<notin> set s \<Longrightarrow> sublist x s \<Longrightarrow> JSON_parse sample_runtime x = None"
proof -
  assume "CHR ''{'' \<notin> set s" "sublist x s"
  then have "CHR ''{'' \<notin> set x" using set_mono_sublist by fastforce
  moreover have "CHR ''{'' \<in> set rejecting_text" by (simp add: rejecting_text_def)
  ultimately have "x \<noteq> rejecting_text" by blast
  then show ?thesis by (simp add: sample_runtime_def)
qed

lemma cleanJson_span_unparseable:
  assumes "\<forall>x. parsed_span s = Some x \<longrightarrow> parse x = None"
  shows "cleanJson parse s = None"
proof (cases "parsed_span s")
  case None
  then show ?thesis by (simp add: cleanJson_parsed_span)
next
  case (Some x)
  with assms have "parse x = None" by blast
  with Some show ?thesis by (simp add: cleanJson_parsed_span)
qed

lemma sample_default_analysis:
  assumes "t \<noteq> []" and "\<forall>x. parsed_span t = Some x \<longrightarrow> x \<noteq> rejecting_text"
  shows "analyzeSourceImage sample_runtime (answering t) b m =
           (Inr default_analysis, [analysis_request b m])"
proof -
  let ?res = "Output (Some [\<lparr> content = Some [\<lparr> block_type = Some ''output_text'', block_text = Some t \<rparr>] \<rparr>])"
  have r: "responses_create (answering t) (analysis_request b m) = Inr ?res"
    by (simp add: answering_def)
  have e: "extractMessageText ?res = t"
    using assms(1) by (simp add: extractMessageText_def truthy_def)
  have "\<forall>x. parsed_span t = Some x \<longrightarrow> JSON_parse sample_runtime x = None"
    using assms(2) by (simp add: sample_runtime_def)
  then have "cleanJson (JSON_parse sample_runtime) (extractMessageText ?res) = None"
    unfolding e by (rule cleanJson_span_unparseable)
  with r show ?thesis by (rule analyze_default)
qed

text \<open>
  Claim C5: when the text of the stage-1 response holds no parseable JSON object, that is,
  when the span that \<open>cleanJson\<close> extracts from it, if there is one, does not parse,
  \<open>analyzeSourceImage\<close> does not throw but returns the default analysis, which does not
  reject, has the default summary and an empty insights bundle; and a request with a
  credential and an image then goes on to generation: the second request the route sends is
  the image request, with the prompt built from the empty bundle.
\<close>

theorem unparseable_analysis_default:
  assumes "responses_create openai (analysis_request b m) = Inr res"
    and "\<forall>x. parsed_span (extractMessageText res) = Some x \<longrightarrow> JSON_parse rt x = None"
  shows "analyzeSourceImage rt openai b m = (Inr default_analysis, [analysis_request b m]) \<and>
         \<not> shouldReject default_analysis \<and>
         summary default_analysis =
           Some ''Unable to parse structured inspection; proceeding with default transformation.'' \<and>
         insights default_analysis = Some empty_insights \<and>
         (truthy (OPENAI_API_KEY req) \<and> formData req = Inr form \<and>
          form_get form ''image'' = Some (FFile f) \<and> b = toBase64 rt (file_bytes f) \<and>
          m = (if file_type f = [] then ''image/jpeg'' else file_type f) \<longrightarrow>
            take 2 (snd (POST rt openai req)) =
              [analysis_request b m, generation_request (prompt_of form empty_insights)])"
proof -
  have a: "analyzeSourceImage rt openai b m = (Inr default_analysis, [analysis_request b m])"
    using assms by (intro analyze_default cleanJson_span_unparseable)
  have d: "\<not> shouldReject default_analysis" "insights default_analysis = Some empty_insights"
    "summary default_analysis =
           Some ''Unable to parse structured inspection; proceeding with default transformation.''"
    by (simp_all add: default_analysis_def)
  have "take 2 (snd (POST rt openai req)) =
          [analysis_request b m, generation_request (prompt_of form empty_insights)]"
    if "truthy (OPENAI_API_KEY req)" "formData req = Inr form"
      "form_get form ''image'' = Some (FFile f)" "b = toBase64 rt (file_bytes f)"
      "m = (if file_type f = [] then ''image/jpeg'' else file_type f)"
    using POST_after_analysis [of req form f rt openai default_analysis "[analysis_request b m]" empty_insights]
      that a d by (simp add: numeral_2_eq_2 split: if_splits)
  with a d show ?thesis by blast
qed

theorem unparseable_analysis_default_witness:
  "parsed_span malformed_reply = Some ''{x: false,}'' \<and>
   JSON_parse sample_runtime ''{x: false,}'' = None \<and>
   analyzeSourceImage sample_runtime (answering malformed_reply) ''YWJj'' ''image/jpeg'' =
     (Inr default_analysis, [analysis_request ''YWJj'' ''image/jpeg'']) \<and>
   take 2 (snd (POST sample_runtime (answering malformed_reply)
                  (sample_request [(''image'', FFile sample_file)]))) =
     [analysis_request ''YWJj'' ''image/jpeg'',
      generation_request (prompt_of [(''image'', FFile sample_file)] empty_insights)]"
proof -
  let ?res = "Output (Some [\<lparr> content = Some [\<lparr> block_type = Some ''output_text'', block_text = Some malformed_reply \<rparr>] \<rparr>])"
  have r: "responses_create (answering malformed_reply) (analysis_request ''YWJj'' ''image/jpeg'') = Inr ?res"
    by (simp add: answering_def)
  have t: "extractMessageText ?res = malformed_reply"
    by (simp add: extractMessageText_def truthy_def malformed_reply_def)
  have s: "parsed_span malformed_reply = Some ''{x: false,}''" by code_simp
  have n: "JSON_parse sample_runtime ''{x: false,}'' = None" by code_simp
  have u: "\<forall>x. parsed_span (extractMessageText ?res) = Some x \<longrightarrow> JSON_parse sample_runtime x = None"
    unfolding t using s n by simp
  have k: "truthy (OPENAI_API_KEY (sample_request [(''image'', FFile sample_file)]))"
    "formData (sample_request [(''image'', FFile sample_file)]) = Inr [(''image'', FFile sample_file)]"
    "form_get [(''image'', FFile sample_file)] ''image'' = Some (FFile sample_file)"
    "''YWJj'' = toBase64 sample_runtime (file_bytes sample_file)"
    "''image/jpeg'' = (if file_type sample_file = [] then ''image/jpeg'' else file_type sample_file)"
    by (simp_all add: sample_request_def truthy_def form_get_def sample_runtime_def sample_file_def)
  show ?thesis
    using unparseable_analysis_default [OF r u, of "sample_request [(''image'', FFile sample_file)]"
        "[(''image'', FFile sample_file)]" sample_file] k s n
    by blast
qed



lemma POST_calls:
  "snd (POST rt openai req) = [] \<or>
   (\<exists>form f b m. formData req = Inr form \<and> form_get form ''image'' = Some (FFile f) \<and>
      (snd (POST rt openai req) = [analysis_request b m] \<or>
       (\<exists>ins. snd (POST rt openai req) = [analysis_request b m, generation_request (prompt_of form ins)] \<or>
          (\<exists>img. snd (POST rt openai req) =
             [analysis_request b m, generation_request (prompt_of form ins), verification_request img]))))"
proof (cases "truthy (OPENAI_API_KEY req)")
  case False
  then show ?thesis by (simp add: POST_def)
next
  case key: True
  show ?thesis
  proof (cases "formData req")
    case (Inl e)
    with key show ?thesis by (simp add: POST_def)
  next
    case (Inr form)
    show ?thesis
    proof (cases "\<exists>f. form_get form ''image'' = Some (FFile f)")
      case False
      with key Inr show ?thesis
        by (auto simp: POST_def split: option.splits form_value.splits)
    next
      case True
      then obtain f where f: "form_get form ''image'' = Some (FFile f)" by blast
      define b where "b = toBase64 rt (file_bytes f)"
      define m where "m = (if file_type f = [] then ''image/jpeg'' else file_type f)"
      obtain r1 where a: "analyzeSourceImage rt openai b m = (r1, [analysis_request b m])"
        using snd_analyzeSourceImage [of rt openai b m]
        by (cases "analyzeSourceImage rt openai b m") simp
      show ?thesis
      proof (cases r1)
        case (Inl e)
        with key Inr f a have "snd (POST rt openai req) = [analysis_request b m]"
          by (simp add: POST_def Let_def b_def m_def)
        with Inr f show ?thesis by blast
      next
        case an: (Inr analysis)
        show ?thesis
        proof (cases "shouldReject analysis \<or> insights analysis = None")
          case True
          with key Inr f a an have "snd (POST rt openai req) = [analysis_request b m]"
            by (auto simp: POST_def Let_def b_def m_def)
          with Inr f show ?thesis by blast
        next
          case False
          then obtain ins where ins: "\<not> shouldReject analysis" "insights analysis = Some ins"
            by auto
          obtain r2 where g:
            "generateShot openai (prompt_of form ins) = (r2, [generation_request (prompt_of form ins)])"
            using snd_generateShot [of openai "prompt_of form ins"]
            by (cases "generateShot openai (prompt_of form ins)") simp
          show ?thesis
          proof (cases r2)
            case (Inl e)
            with key Inr f a an ins g
            have "snd (POST rt openai req) = [analysis_request b m, generation_request (prompt_of form ins)]"
              by (simp add: POST_def Let_def b_def m_def)
            with Inr f show ?thesis by blast
          next
            case im: (Inr img)
            obtain r3 where v:
              "verifyComposite openai (second_piece img) = (r3, [verification_request (second_piece img)])"
              using snd_verifyComposite [of openai "second_piece img"]
              by (cases "verifyComposite openai (second_piece img)") simp
            with key Inr f a an ins g im
            have "snd (POST rt openai req) =
                [analysis_request b m, generation_request (prompt_of form ins),
                 verification_request (second_piece img)]"
              by (cases r3) (simp_all add: POST_def Let_def b_def m_def)
            with Inr f show ?thesis by blast
          qed
        qed
      qed
    qed
  qed
qed

lemma POST_generation_prompt:
  assumes "ImagesGenerate mo p sz q st \<in> set (snd (POST rt openai req))"
  shows "\<exists>form ins. formData req = Inr form \<and> p = prompt_of form ins"
  using assms POST_calls [of rt openai req]
  by (auto simp: analysis_request_def verification_request_def generation_request_def)

lemma sublist_join: "x \<in> set xs \<Longrightarrow> sublist x (join sep xs)"
proof (induction sep xs rule: join.induct)
  case (1 sep)
  then show ?case by simp
next
  case (2 sep y)
  then show ?case by simp
next
  case (3 sep y z zs)
  show ?case
  proof (cases "x = y")
    case True
    then show ?thesis by simp
  next
    case False
    with 3 have "sublist x (join sep (z # zs))" by simp
    then have "sublist x ((y @ sep) @ join sep (z # zs))"
      by (meson sublist_order.order.trans suffix_imp_sublist suffixI)
    then show ?thesis by simp
  qed
qed

lemma reinforcement_in_prompt: "sublist (reinforcement i) (build_prompt l ld md ins i)"
  unfolding build_prompt_def by (rule sublist_join) simp

lemma reinforcement_sentences:
  "sublist interior_sentence (reinforcement b) \<longleftrightarrow> b"
  "sublist exterior_sentence (reinforcement b) \<longleftrightarrow> \<not> b"
proof -
  have "sublist interior_sentence (reinforcement True)"
    unfolding reinforcement_def by (rule sublist_join) simp
  moreover have "sublist exterior_sentence (reinforcement False)"
    unfolding reinforcement_def by (rule sublist_join) simp
  moreover have "\<not> sublist interior_sentence (reinforcement False)"
    by code_simp
  moreover have "\<not> sublist exterior_sentence (reinforcement True)"
    by code_simp
  ultimately show "sublist interior_sentence (reinforcement b) \<longleftrightarrow> b"
    "sublist exterior_sentence (reinforcement b) \<longleftrightarrow> \<not> b"
    by (cases b; simp)+
qed

lemma sample_generation:
  assumes "form_get form ''image'' = Some (FFile sample_file)"
  shows "generation_request (prompt_of form empty_insights) \<in>
         set (snd (POST sample_runtime (answering ''A boat on a trailer.'') (sample_request form)))"
proof -
  let ?res = "Output (Some [\<lparr> content = Some [\<lparr> block_type = Some ''output_text'', block_text = Some ''A boat on a trailer.'' \<rparr>] \<rparr>])"
  have r: "responses_create (answering ''A boat on a trailer.'') (analysis_request ''YWJj'' ''image/jpeg'') = Inr ?res"
    by (simp add: answering_def)
  have t: "extractMessageText ?res = ''A boat on a trailer.''"
    by (simp add: extractMessageText_def truthy_def)
  have "\<forall>x. sublist x (extractMessageText ?res) \<longrightarrow> JSON_parse sample_runtime x = None"
    unfolding t using no_brace_unparseable [of "''A boat on a trailer.''"] by simp
  then have "cleanJson (JSON_parse sample_runtime) (extractMessageText ?res) = None"
    by (rule cleanJson_unparseable)
  with r have a: "analyzeSourceImage sample_runtime (answering ''A boat on a trailer.'') ''YWJj'' ''image/jpeg'' =
      (Inr default_analysis, [analysis_request ''YWJj'' ''image/jpeg''])"
    by (rule analyze_default)
  have "take (Suc (length [analysis_request ''YWJj'' ''image/jpeg'']))
          (snd (POST sample_runtime (answering ''A boat on a trailer.'') (sample_request form))) =
        [analysis_request ''YWJj'' ''image/jpeg''] @ [generation_request (prompt_of form empty_insights)]"
    using assms a
    by (intro POST_after_analysis [where f = sample_file and analysis = default_analysis])
      (simp_all add: sample_request_def truthy_def sample_runtime_def sample_file_def default_analysis_def)
  then have "generation_request (prompt_of form empty_insights) \<in>
      set (take (Suc (length [analysis_request ''YWJj'' ''image/jpeg'']))
          (snd (POST sample_runtime (answering ''A boat on a trailer.'') (sample_request form))))"
    by simp
  then show ?thesis by (rule in_set_takeD)
qed

lemma POST_generates:
  assumes "truthy (OPENAI_API_KEY req)" and "formData req = Inr form"
    and "form_get form ''image'' = Some (FFile f)"
    and "analyzeSourceImage rt openai (toBase64 rt (file_bytes f))
           (if file_type f = [] then ''image/jpeg'' else file_type f) = (Inr analysis, calls)"
    and "\<not> shouldReject analysis" and "insights analysis = Some ins"
  shows "snd (POST rt openai req) = calls @ [generation_request (prompt_of form ins)] \<or>
         (\<exists>img. snd (POST rt openai req) =
            calls @ [generation_request (prompt_of form ins), verification_request img])"
proof -
  obtain r2 where g:
    "generateShot openai (prompt_of form ins) = (r2, [generation_request (prompt_of form ins)])"
    using snd_generateShot [of openai "prompt_of form ins"]
    by (cases "generateShot openai (prompt_of form ins)") simp
  show ?thesis
  proof (cases r2)
    case (Inl e)
    with assms g show ?thesis by (simp add: POST_def Let_def)
  next
    case (Inr img)
    obtain r3 where v:
      "verifyComposite openai (second_piece img) = (r3, [verification_request (second_piece img)])"
      using snd_verifyComposite [of openai "second_piece img"]
      by (cases "verifyComposite openai (second_piece img)") simp
    with assms g Inr have "snd (POST rt openai req) =
        calls @ [generation_request (prompt_of form ins), verification_request (second_piece img)]"
      by (cases r3) (simp_all add: POST_def Let_def)
    then show ?thesis by blast
  qed
qed

lemma POST_sends_prompt:
  assumes "truthy (OPENAI_API_KEY req)" and "formData req = Inr form"
    and "form_get form ''image'' = Some (FFile f)"
    and "analyzeSourceImage rt openai (toBase64 rt (file_bytes f))
           (if file_type f = [] then ''image/jpeg'' else file_type f) = (Inr analysis, calls)"
    and "\<not> shouldReject analysis" and "insights analysis = Some ins"
  shows "generation_request (prompt_of form ins) \<in> set (snd (POST rt openai req))"
    and "ImagesGenerate mo p sz q st \<in> set (snd (POST rt openai req)) \<Longrightarrow> p = prompt_of form ins"
proof -
  have c: "calls = [analysis_request (toBase64 rt (file_bytes f))
               (if file_type f = [] then ''image/jpeg'' else file_type f)]"
    using snd_analyzeSourceImage [of rt openai "toBase64 rt (file_bytes f)"
        "if file_type f = [] then ''image/jpeg'' else file_type f"] assms(4)
    by simp
  note shape = POST_generates [OF assms]
  from shape show "generation_request (prompt_of form ins) \<in> set (snd (POST rt openai req))"
    by auto
  assume "ImagesGenerate mo p sz q st \<in> set (snd (POST rt openai req))"
  with shape c show "p = prompt_of form ins"
    by (auto simp: analysis_request_def verification_request_def generation_request_def)
qed

text \<open>
  Claim C10: the reinforcement clause holds the interior-showcase sentence exactly when the
  form field \<open>includeInteriors\<close> is the string \<open>true\<close>, and the exterior-only sentence for
  every other value and for an absent field; the clause, and with it the sentence, is part
  of the prompt. A request with a credential, an image and an analysis that does not reject
  and has insights makes the route send the image request with exactly this prompt, and no
  image request with another prompt.
\<close>

theorem interior_sentence_iff_true:
  "(sublist interior_sentence (reinforcement (includeInteriors_of form)) \<longleftrightarrow>
      form_get form ''includeInteriors'' = Some (FText ''true'')) \<and>
   (sublist exterior_sentence (reinforcement (includeInteriors_of form)) \<longleftrightarrow>
      form_get form ''includeInteriors'' \<noteq> Some (FText ''true'')) \<and>
   sublist (reinforcement (includeInteriors_of form)) (prompt_of form ins) \<and>
   (form_get form ''includeInteriors'' = Some (FText ''true'') \<longrightarrow>
      sublist interior_sentence (prompt_of form ins)) \<and>
   (form_get form ''includeInteriors'' \<noteq> Some (FText ''true'') \<longrightarrow>
      sublist exterior_sentence (prompt_of form ins)) \<and>
   (truthy (OPENAI_API_KEY req) \<and> formData req = Inr form \<and>
    form_get form ''image'' = Some (FFile f) \<and>
    analyzeSourceImage rt openai (toBase64 rt (file_bytes f))
      (if file_type f = [] then ''image/jpeg'' else file_type f) = (Inr analysis, calls) \<and>
    \<not> shouldReject analysis \<and> insights analysis = Some ins \<longrightarrow>
      generation_request (prompt_of form ins) \<in> set (snd (POST rt openai req)) \<and>
      (\<forall>mo p sz q st. ImagesGenerate mo p sz q st \<in> set (snd (POST rt openai req)) \<longrightarrow>
         p = prompt_of form ins)) \<and>
   (ImagesGenerate mo' p' sz' q' st' \<in> set (snd (POST rt openai req)) \<longrightarrow>
      (\<exists>form' ins'. formData req = Inr form' \<and> p' = prompt_of form' ins'))"
proof -
  note s = reinforcement_sentences [of "includeInteriors_of form"]
  have 1: "sublist interior_sentence (reinforcement (includeInteriors_of form)) \<longleftrightarrow>
      form_get form ''includeInteriors'' = Some (FText ''true'')"
    using s(1) by (simp add: includeInteriors_of_def)
  have 2: "sublist exterior_sentence (reinforcement (includeInteriors_of form)) \<longleftrightarrow>
      form_get form ''includeInteriors'' \<noteq> Some (FText ''true'')"
    using s(2) by (simp add: includeInteriors_of_def)
  have 3: "sublist (reinforcement (includeInteriors_of form)) (prompt_of form ins)"
    unfolding prompt_of_def by (rule reinforcement_in_prompt)
  have 4: "sublist interior_sentence (prompt_of form ins)"
    if "form_get form ''includeInteriors'' = Some (FText ''true'')"
    using that 1 3 by (meson sublist_order.order.trans)
  have 5: "sublist exterior_sentence (prompt_of form ins)"
    if "form_get form ''includeInteriors'' \<noteq> Some (FText ''true'')"
    using that 2 3 by (meson sublist_order.order.trans)
  have 6: "generation_request (prompt_of form ins) \<in> set (snd (POST rt openai req)) \<and>
      (\<forall>mo p sz q st. ImagesGenerate mo p sz q st \<in> set (snd (POST rt openai req)) \<longrightarrow>
         p = prompt_of form ins)"
    if "truthy (OPENAI_API_KEY req)" "formData req = Inr form"
      "form_get form ''image'' = Some (FFile f)"
      "analyzeSourceImage rt openai (toBase64 rt (file_bytes f))
        (if file_type f = [] then ''image/jpeg'' else file_type f) = (Inr analysis, calls)"
      "\<not> shouldReject analysis" "insights analysis = Some ins"
    using POST_sends_prompt [OF that] by blast
  have 7: "\<exists>form' ins'. formData req = Inr form' \<and> p' = prompt_of form' ins'"
    if "ImagesGenerate mo' p' sz' q' st' \<in> set (snd (POST rt openai req))"
    using that by (rule POST_generation_prompt)
  from 1 2 3 4 5 6 7 show ?thesis by blast
qed

theorem interior_sentence_iff_true_witness:
  "generation_request
     (prompt_of [(''image'', FFile sample_file), (''includeInteriors'', FText ''true'')] empty_insights) \<in>
     set (snd (POST sample_runtime (answering ''A boat on a trailer.'')
       (sample_request [(''image'', FFile sample_file), (''includeInteriors'', FText ''true'')]))) \<and>
   sublist interior_sentence
     (prompt_of [(''image'', FFile sample_file), (''includeInteriors'', FText ''true'')] empty_insights) \<and>
   generation_request
     (prompt_of [(''image'', FFile sample_file), (''includeInteriors'', FText ''True'')] empty_insights) \<in>
     set (snd (POST sample_runtime (answering ''A boat on a trailer.'')
       (sample_request [(''image'', FFile sample_file), (''includeInteriors'', FText ''True'')]))) \<and>
   sublist exterior_sentence
     (prompt_of [(''image'', FFile sample_file), (''includeInteriors'', FText ''True'')] empty_insights) \<and>
   \<not> sublist interior_sentence
     (reinforcement (includeInteriors_of [(''image'', FFile sample_file), (''includeInteriors'', FText ''True'')])) \<and>
   sublist exterior_sentence (reinforcement (includeInteriors_of [(''includeInteriors'', FText ''1'')])) \<and>
   sublist exterior_sentence (reinforcement (includeInteriors_of []))"
proof -
  let ?T = "[(''image'', FFile sample_file), (''includeInteriors'', FText ''true'')]"
  let ?U = "[(''image'', FFile sample_file), (''includeInteriors'', FText ''True'')]"
  have a: "analyzeSourceImage sample_runtime (answering ''A boat on a trailer.'')
      (toBase64 sample_runtime (file_bytes sample_file))
      (if file_type sample_file = [] then ''image/jpeg'' else file_type sample_file) =
      (Inr default_analysis, [analysis_request (toBase64 sample_runtime (file_bytes sample_file))
      (if file_type sample_file = [] then ''image/jpeg'' else file_type sample_file)])"
    by (rule sample_default_analysis) (simp_all add: parsed_span_None)
  have d: "\<not> shouldReject default_analysis" "insights default_analysis = Some empty_insights"
    by (simp_all add: default_analysis_def)
  have k: "truthy (OPENAI_API_KEY (sample_request F))" "formData (sample_request F) = Inr F" for F
    by (simp_all add: sample_request_def truthy_def)
  have g: "form_get ?T ''image'' = Some (FFile sample_file)"
    "form_get ?U ''image'' = Some (FFile sample_file)"
    "form_get ?T ''includeInteriors'' = Some (FText ''true'')"
    "form_get ?U ''includeInteriors'' \<noteq> Some (FText ''true'')"
    "form_get [(''includeInteriors'', FText ''1'')] ''includeInteriors'' \<noteq> Some (FText ''true'')"
    "form_get [] ''includeInteriors'' \<noteq> Some (FText ''true'')"
    by (simp_all add: form_get_def)
  note inst = interior_sentence_iff_true [where ins = empty_insights and rt = sample_runtime
      and openai = "answering ''A boat on a trailer.''" and f = sample_file
      and analysis = default_analysis
      and calls = "[analysis_request (toBase64 sample_runtime (file_bytes sample_file))
        (if file_type sample_file = [] then ''image/jpeg'' else file_type sample_file)]"
      and mo' = "[]" and p' = "[]" and sz' = "[]" and q' = "[]" and st' = "[]"]
  have 1: "generation_request (prompt_of ?T empty_insights) \<in>
      set (snd (POST sample_runtime (answering ''A boat on a trailer.'') (sample_request ?T)))"
    "sublist interior_sentence (prompt_of ?T empty_insights)"
    using inst [of ?T "sample_request ?T"] k [of ?T] g(1,3) a d by blast+
  have 2: "generation_request (prompt_of ?U empty_insights) \<in>
      set (snd (POST sample_runtime (answering ''A boat on a trailer.'') (sample_request ?U)))"
    "sublist exterior_sentence (prompt_of ?U empty_insights)"
    "\<not> sublist interior_sentence (reinforcement (includeInteriors_of ?U))"
    using inst [of ?U "sample_request ?U"] k [of ?U] g(2,4) a d by blast+
  have 3: "sublist exterior_sentence (reinforcement (includeInteriors_of [(''includeInteriors'', FText ''1'')]))"
    using inst [of "[(''includeInteriors'', FText ''1'')]" "sample_request []"] g(5) by blast
  have 4: "sublist exterior_sentence (reinforcement (includeInteriors_of []))"
    using inst [of "[]" "sample_request []"] g(6) by blast
  from 1 2 3 4 show ?thesis by blast
qed

lemma sublist_line:
  assumes "a @ x @ b \<in> set xs"
  shows "sublist x (join sep xs)"
proof -
  have "sublist x (a @ x @ b)" by (rule sublist_appendI)
  moreover have "sublist (a @ x @ b) (join sep xs)" using assms by (rule sublist_join)
  ultimately show ?thesis by (rule sublist_order.order.trans)
qed

lemma lexicon_phrases_in_prompt:
  assumes "lens_of form = FText ''action-zoom''" and "dynamic_of form = FText ''harbor''"
  shows "sublist ''high-speed telephoto capture, sweeping rooster tail, tack sharp hull detail''
           (prompt_of form ins) \<and>
         sublist ''arrival sequence past iconic marina landmarks, soft dusk lighting, warm hospitality''
           (prompt_of form ins) \<and>
         sublist (to_text (location_of form)) (prompt_of form ins)"
proof -
  have l: "directive lensLexicon ''action-zoom'' ''wide-immersive'' =
      ''high-speed telephoto capture, sweeping rooster tail, tack sharp hull detail''"
    by (simp add: directive_def property_def lensLexicon_def)
  have d: "directive dynamicDirectives ''harbor'' ''running'' =
      ''arrival sequence past iconic marina landmarks, soft dusk lighting, warm hospitality''"
    by (simp add: directive_def property_def dynamicDirectives_def)
  have "sublist (directive lensLexicon ''action-zoom'' ''wide-immersive'') (prompt_of form ins)"
    unfolding prompt_of_def build_prompt_def assms to_text_def form_value.case
    by (rule sublist_line [where a = "''Lens profile: ''" and b = "''.''"]) simp
  moreover have "sublist (directive dynamicDirectives ''harbor'' ''running'') (prompt_of form ins)"
    unfolding prompt_of_def build_prompt_def assms to_text_def form_value.case
    by (rule sublist_line [where a = "''Shot dynamic: ''" and b = "''.''"]) simp
  moreover have "sublist (to_text (location_of form)) (prompt_of form ins)"
    unfolding prompt_of_def build_prompt_def
    by (rule sublist_line [where a = "''Locale: ''" and b = "''.''"]) simp
  ultimately show ?thesis by (simp only: l d)
qed

lemma unknown_key_default:
  assumes "map_of lexicon key = None" and "map_of Object_prototype key = None"
  shows "directive lexicon key fallback = directive lexicon fallback fallback"
  using assms by (simp add: directive_def property_def split: option.splits)

text \<open>
  Claim C2: with lens \<open>action-zoom\<close> and dynamic \<open>harbor\<close> the prompt holds the two lexicon
  phrases and the locale (\<open>lexicon_phrases_in_prompt\<close>), and a key that neither the lexicon
  nor \<open>Object.prototype\<close> knows takes the default (\<open>unknown_key_default\<close>). The second part
  of the claim fails for a key that the lexicon inherits: the lens \<open>constructor\<close> is not
  in \<open>lensLexicon\<close>, yet \<open>lensLexicon[lens]\<close> is the function \<open>Object\<close>, which is not nullish,
  so \<open>??\<close> does not fall back. The image request that the route sends for this lens has the
  source text of that function as its lens profile, and the default directive is nowhere in
  its prompt.
\<close>

theorem inherited_key_escapes_default:
  "map_of lensLexicon ''constructor'' = None \<and>
   directive lensLexicon ''constructor'' ''wide-immersive'' = ''function Object() { [native code] }'' \<and>
   directive lensLexicon ''constructor'' ''wide-immersive'' \<noteq>
     directive lensLexicon ''wide-immersive'' ''wide-immersive'' \<and>
   map_of dynamicDirectives ''toString'' = None \<and>
   directive dynamicDirectives ''toString'' ''running'' = ''function toString() { [native code] }'' \<and>
   generation_request (prompt_of [(''image'', FFile sample_file), (''lens'', FText ''constructor'')] empty_insights) \<in>
     set (snd (POST sample_runtime (answering ''A boat on a trailer.'')
       (sample_request [(''image'', FFile sample_file), (''lens'', FText ''constructor'')]))) \<and>
   sublist ''Lens profile: function Object() { [native code] }.''
     (prompt_of [(''image'', FFile sample_file), (''lens'', FText ''constructor'')] empty_insights) \<and>
   \<not> sublist (directive lensLexicon ''wide-immersive'' ''wide-immersive'')
     (prompt_of [(''image'', FFile sample_file), (''lens'', FText ''constructor'')] empty_insights)"
proof -
  have 1: "map_of lensLexicon ''constructor'' = None" "map_of dynamicDirectives ''toString'' = None"
    by (simp_all add: lensLexicon_def dynamicDirectives_def)
  have 2: "directive lensLexicon ''constructor'' ''wide-immersive'' = ''function Object() { [native code] }''"
    "directive dynamicDirectives ''toString'' ''running'' = ''function toString() { [native code] }''"
    "directive lensLexicon ''constructor'' ''wide-immersive'' \<noteq>
     directive lensLexicon ''wide-immersive'' ''wide-immersive''"
    by code_simp+
  have 3: "generation_request (prompt_of [(''image'', FFile sample_file), (''lens'', FText ''constructor'')] empty_insights) \<in>
     set (snd (POST sample_runtime (answering ''A boat on a trailer.'')
       (sample_request [(''image'', FFile sample_file), (''lens'', FText ''constructor'')])))"
    by (rule sample_generation) (simp add: form_get_def)
  have 4: "sublist ''Lens profile: function Object() { [native code] }.''
     (prompt_of [(''image'', FFile sample_file), (''lens'', FText ''constructor'')] empty_insights)"
    by code_simp
  have 5: "\<not> sublist (directive lensLexicon ''wide-immersive'' ''wide-immersive'')
     (prompt_of [(''image'', FFile sample_file), (''lens'', FText ''constructor'')] empty_insights)"
    by code_simp
  from 1 2 3 4 5 show ?thesis by blast
qed

section \<open>Properties of the uploader\<close>

lemma before_fetch_touch: "before_fetch item q = touch (item_id item) started q"
  by (induction q)
    (simp_all add: before_fetch_def appendLog_def updateQueueItem_def merged_def no_updates_def
      touch_def started_def)

lemma after_fetch_touch: "after_fetch outcome item q = touch (item_id item) (settled outcome) q"
  by (induction q)
    (simp_all add: after_fetch_def appendLog_def updateQueueItem_def merged_def no_updates_def
      touch_def settled_def rendering_def failed_def split: fetch_outcome.splits option.splits)

lemma touch_ids: "(\<And>x. item_id (g x) = item_id x) \<Longrightarrow> map item_id (touch i g q) = map item_id q"
  by (induction q) (simp_all add: touch_def)

lemma in_touch: "y \<in> set (touch i g q) \<longleftrightarrow> (\<exists>x \<in> set q. y = (if item_id x \<noteq> i then x else g x))"
  by (auto simp: touch_def)

lemma started_simps:
  "item_id (started x) = item_id x" "status (started x) = Analyzing"
  "result (started x) = result x" "error (started x) = error x"
  "logs (started x) = logs x @ [rocket @ '' Starting processing pipeline'',
                          magnifier @ '' Extracting vessel details and trailer remnants'']"
  by (simp_all add: started_def)

lemma settled_id: "item_id (settled outcome x) = item_id x"
  by (simp add: settled_def split: fetch_outcome.splits option.splits)

lemma settled_terminal:
  "(status (settled outcome x) = Complete \<and> result (settled outcome x) \<noteq> None) \<or>
   (status (settled outcome x) = Error \<and> result (settled outcome x) = result x)"
  by (cases outcome) (simp_all add: settled_def split: option.splits)

lemma suited_tail:
  assumes "suited q (item # rest)"
  shows "suited q rest"
proof -
  from assms have "distinct (map item_id rest)" unfolding suited_def by simp
  moreover from assms have "\<forall>j \<in> set rest. status j \<noteq> Complete \<longrightarrow>
        (\<forall>x \<in> set q. item_id x = item_id j \<longrightarrow> status x \<noteq> Complete)"
    unfolding suited_def by (meson list.set_intros(2))
  ultimately show ?thesis unfolding suited_def by blast
qed

lemma suited_self:
  assumes "distinct (map item_id q)"
  shows "suited q q"
  unfolding suited_def
proof (intro conjI ballI impI)
  show "distinct (map item_id q)" by (rule assms)
next
  fix j x
  assume "j \<in> set q" "status j \<noteq> Complete" "x \<in> set q" "item_id x = item_id j"
  with assms have "x = j" by (meson distinct_map inj_onD)
  with \<open>status j \<noteq> Complete\<close> show "status x \<noteq> Complete" by simp
qed

lemma suited_touch:
  assumes "suited q items"
    and "\<And>x. x \<in> set q \<Longrightarrow> status x \<noteq> Complete \<Longrightarrow> item_id x = i \<Longrightarrow> status (g x) \<noteq> Complete"
    and "\<And>x. item_id (g x) = item_id x"
  shows "suited (touch i g q) items"
  unfolding suited_def
proof (intro conjI ballI impI)
  show "distinct (map item_id items)" using assms(1) unfolding suited_def by blast
next
  fix j y
  assume j: "j \<in> set items" "status j \<noteq> Complete" and y: "y \<in> set (touch i g q)" "item_id y = item_id j"
  from y(1) obtain x where x: "x \<in> set q" "y = (if item_id x \<noteq> i then x else g x)"
    unfolding in_touch by blast
  have "item_id y = item_id x" using x(2) assms(3) by (cases "item_id x = i") simp_all
  with y(2) have "item_id x = item_id j" by simp
  with assms(1) j x(1) have sx: "status x \<noteq> Complete" unfolding suited_def by blast
  show "status y \<noteq> Complete"
  proof (cases "item_id x = i")
    case True
    with x(2) have "y = g x" by simp
    with assms(2) [OF x(1) sx True] show ?thesis by simp
  next
    case False
    with x(2) sx show ?thesis by simp
  qed
qed

lemma result_touch:
  assumes inv: "\<forall>x \<in> set q. result x \<noteq> None \<longleftrightarrow> status x = Complete"
    and g: "\<And>x. x \<in> set q \<Longrightarrow> item_id x = i \<Longrightarrow> result (g x) \<noteq> None \<longleftrightarrow> status (g x) = Complete"
  shows "\<forall>y \<in> set (touch i g q). result y \<noteq> None \<longleftrightarrow> status y = Complete"
proof
  fix y
  assume "y \<in> set (touch i g q)"
  then obtain x where x: "x \<in> set q" "y = (if item_id x \<noteq> i then x else g x)"
    unfolding in_touch by blast
  show "result y \<noteq> None \<longleftrightarrow> status y = Complete"
  proof (cases "item_id x = i")
    case True
    with x(2) have "y = g x" by simp
    with g [OF x(1) True] show ?thesis by simp
  next
    case False
    with x(2) have "y = x" by simp
    with inv x(1) show ?thesis by blast
  qed
qed

lemma consistent_suspended:
  assumes "\<forall>x \<in> set (queue w). result x \<noteq> None \<longleftrightarrow> status x = Complete"
    and "distinct (map item_id (queue w))"
    and "running w = [p]" and "isProcessing w" and "pending p = item # rest"
    and "status item \<noteq> Complete" and "suited (queue w) (item # rest)"
  shows "consistent w"
  unfolding consistent_def using assms by blast

lemma consistent_idle:
  assumes "\<forall>x \<in> set (queue w). result x \<noteq> None \<longleftrightarrow> status x = Complete"
    and "distinct (map item_id (queue w))" and "running w = []"
  shows "consistent w"
  unfolding consistent_def using assms by blast

lemma consistentD:
  assumes "consistent w"
  shows "\<forall>x \<in> set (queue w). result x \<noteq> None \<longleftrightarrow> status x = Complete"
    and "distinct (map item_id (queue w))"
  using assms unfolding consistent_def by blast+

lemma continue_pass_consistent:
  assumes "\<forall>x \<in> set (queue w). result x \<noteq> None \<longleftrightarrow> status x = Complete"
    and "distinct (map item_id (queue w))"
    and "running w = []" and "isProcessing w" and "suited (queue w) items"
  shows "consistent (continue_pass p items w)"
  using assms(5)
proof (induction items)
  case Nil
  have "consistent (w\<lparr> isProcessing := False \<rparr>)"
    using assms(1,2,3) by (simp add: consistent_def)
  then show ?case by simp
next
  case (Cons item rest)
  show ?case
  proof (cases "status item = Complete")
    case True
    from Cons.prems have "suited (queue w) rest" by (rule suited_tail)
    then have "consistent (continue_pass p rest w)" by (rule Cons.IH)
    with True show ?thesis by simp
  next
    case False
    let ?q = "touch (item_id item) started (queue w)"
    let ?w = "w\<lparr> queue := ?q, requests := requests w @ [form_of p item],
                 running := running w @ [p\<lparr> pending := item # rest \<rparr>] \<rparr>"
    have fresh: "status x \<noteq> Complete" if "x \<in> set (queue w)" "item_id x = item_id item" for x
      using Cons.prems False that unfolding suited_def by (meson list.set_intros(1))
    have 1: "\<forall>y \<in> set ?q. result y \<noteq> None \<longleftrightarrow> status y = Complete"
    proof (rule result_touch [OF assms(1)])
      fix x assume x: "x \<in> set (queue w)" "item_id x = item_id item"
      then have "status x \<noteq> Complete" by (rule fresh)
      with assms(1) x(1) have "result x = None" by blast
      then show "result (started x) \<noteq> None \<longleftrightarrow> status (started x) = Complete"
        by (simp add: started_simps)
    qed
    have 2: "distinct (map item_id ?q)"
      using assms(2) by (simp add: touch_ids started_simps)
    have 3: "suited ?q (item # rest)"
      by (rule suited_touch [OF Cons.prems]) (simp_all add: started_simps)
    have "consistent ?w"
      by (rule consistent_suspended [where p = "p\<lparr> pending := item # rest \<rparr>" and item = item and rest = rest])
        (use 1 2 3 False assms(3,4) in simp_all)
    with False show ?thesis by (simp add: before_fetch_touch)
  qed
qed

lemma processQueue_consistent:
  assumes "consistent w"
  shows "consistent (processQueue w)"
proof (cases "\<not> readyForProcessing (queue w) \<or> isProcessing w")
  case True
  with assms show ?thesis by (simp add: processQueue_def)
next
  case False
  then have idle: "\<not> isProcessing w" by simp
  with assms have r: "running w = []" unfolding consistent_def by blast
  let ?w = "w\<lparr> isProcessing := True \<rparr>"
  have "consistent (continue_pass (capture w) (queue w) ?w)"
  proof (rule continue_pass_consistent)
    show "\<forall>x \<in> set (queue ?w). result x \<noteq> None \<longleftrightarrow> status x = Complete"
      using consistentD(1) [OF assms] by simp
    show "distinct (map item_id (queue ?w))" using consistentD(2) [OF assms] by simp
    show "running ?w = []" using r by simp
    show "isProcessing ?w" by simp
    show "suited (queue ?w) (queue w)" using consistentD(2) [OF assms] by (simp add: suited_self)
  qed
  with False show ?thesis by (simp add: processQueue_def)
qed

lemma suited_touch_other:
  assumes "suited q items" and "i \<notin> item_id ` set items" and "\<And>x. item_id (g x) = item_id x"
  shows "suited (touch i g q) items"
  unfolding suited_def
proof (intro conjI ballI impI)
  show "distinct (map item_id items)" using assms(1) unfolding suited_def by blast
next
  fix j y
  assume j: "j \<in> set items" "status j \<noteq> Complete" and y: "y \<in> set (touch i g q)" "item_id y = item_id j"
  from y(1) obtain x where x: "x \<in> set q" "y = (if item_id x \<noteq> i then x else g x)"
    unfolding in_touch by blast
  have "item_id y = item_id x" using x(2) assms(3) by (cases "item_id x = i") simp_all
  with y(2) have same: "item_id x = item_id j" by simp
  with j(1) assms(2) have "item_id x \<noteq> i" by force
  with x(2) have "y = x" by simp
  moreover from assms(1) j x(1) same have "status x \<noteq> Complete" unfolding suited_def by blast
  ultimately show "status y \<noteq> Complete" by simp
qed

lemma settle_consistent:
  assumes "consistent w"
  shows "consistent (settle k outcome w)"
proof (cases "k < length (running w)")
  case False
  with assms show ?thesis by (simp add: settle_def)
next
  case True
  with assms obtain p item rest where p: "running w = [p]" "isProcessing w" "pending p = item # rest"
    "status item \<noteq> Complete" "suited (queue w) (item # rest)"
    unfolding consistent_def by fastforce
  from True p(1) have k: "k = 0" by simp
  let ?q = "touch (item_id item) (settled outcome) (queue w)"
  let ?w = "w\<lparr> queue := ?q, running := [] \<rparr>"
  have fresh: "status x \<noteq> Complete" if "x \<in> set (queue w)" "item_id x = item_id item" for x
    using p(4,5) that unfolding suited_def by (meson list.set_intros(1))
  have 1: "\<forall>y \<in> set ?q. result y \<noteq> None \<longleftrightarrow> status y = Complete"
  proof (rule result_touch [OF consistentD(1) [OF assms]])
    fix x assume x: "x \<in> set (queue w)" "item_id x = item_id item"
    then have "status x \<noteq> Complete" by (rule fresh)
    with consistentD(1) [OF assms] x(1) have "result x = None" by blast
    with settled_terminal [of outcome x]
    show "result (settled outcome x) \<noteq> None \<longleftrightarrow> status (settled outcome x) = Complete"
      by auto
  qed
  have 2: "distinct (map item_id ?q)"
    using consistentD(2) [OF assms] by (simp add: touch_ids settled_id)
  have "distinct (map item_id (item # rest))" using p(5) unfolding suited_def by blast
  then have other: "item_id item \<notin> item_id ` set rest" by simp
  have 3: "suited ?q rest"
    by (rule suited_touch_other [OF suited_tail [OF p(5)] other settled_id])
  have "consistent (continue_pass p rest ?w)"
    by (rule continue_pass_consistent) (use 1 2 3 p(2) in simp_all)
  with p(1,3) k show ?thesis by (simp add: settle_def after_fetch_touch)
qed

lemma handleFiles_consistent:
  assumes "consistent w" and "enabled w (HandleFiles files)"
  shows "consistent (w\<lparr> queue := handleFiles files (queue w) \<rparr>)"
proof (cases files)
  case None
  then have "w\<lparr> queue := handleFiles files (queue w) \<rparr> = w" by (simp add: handleFiles_def)
  with assms(1) show ?thesis by simp
next
  case (Some fs)
  define new where "new = map queued (filter supported fs)"
  have ids: "map item_id new = map (\<lambda>f. fst (snd f)) (filter supported fs)"
    by (simp add: new_def queued_def)
  from assms(2) have "distinct (map (\<lambda>f. fst (snd f)) (filter supported fs)) \<and>
      set (map (\<lambda>f. fst (snd f)) (filter supported fs)) \<inter> known_ids w = {}"
    unfolding Some by simp
  then have d: "distinct (map item_id new)" and f: "set (map item_id new) \<inter> known_ids w = {}"
    unfolding ids by blast+
  have q: "handleFiles files (queue w) = queue w @ new"
    unfolding Some new_def by (simp add: handleFiles_def)
  have fresh_result: "result y = None" and fresh_status: "status y = Ready" if "y \<in> set new" for y
    using that unfolding new_def by (auto simp: queued_def)
  have 1: "\<forall>y \<in> set (queue w @ new). result y \<noteq> None \<longleftrightarrow> status y = Complete"
  proof
    fix y assume "y \<in> set (queue w @ new)"
    then consider "y \<in> set (queue w)" | "y \<in> set new" by auto
    then show "result y \<noteq> None \<longleftrightarrow> status y = Complete"
    proof cases
      case 1
      with consistentD(1) [OF assms(1)] show ?thesis by blast
    next
      case 2
      then show ?thesis by (simp add: fresh_result fresh_status)
    qed
  qed
  have "set (map item_id new) \<inter> item_id ` set (queue w) = {}"
    using f unfolding known_ids_def by blast
  then have "set (map item_id (queue w)) \<inter> set (map item_id new) = {}" by auto
  with consistentD(2) [OF assms(1)] d have 2: "distinct (map item_id (queue w @ new))"
    by simp
  show ?thesis
  proof (cases "running w = []")
    case True
    have "consistent (w\<lparr> queue := queue w @ new \<rparr>)"
      by (rule consistent_idle) (use 1 2 True in simp_all)
    then show ?thesis unfolding q .
  next
    case False
    with assms(1) obtain p item rest where p: "running w = [p]" "isProcessing w" "pending p = item # rest"
      "status item \<noteq> Complete" "suited (queue w) (item # rest)"
      unfolding consistent_def by blast
    have s: "suited (queue w @ new) (item # rest)"
      unfolding suited_def
    proof (intro conjI ballI impI)
      show "distinct (map item_id (item # rest))" using p(5) unfolding suited_def by blast
    next
      fix j y
      assume j: "j \<in> set (item # rest)" "status j \<noteq> Complete"
        and y: "y \<in> set (queue w @ new)" "item_id y = item_id j"
      have "j \<in> (\<Union>p \<in> set (running w). set (pending p))" using j(1) p(1,3) by simp
      then have "item_id j \<in> known_ids w" unfolding known_ids_def by blast
      with y(2) have "item_id y \<in> known_ids w" by simp
      with f have "item_id y \<notin> set (map item_id new)" by blast
      then have "y \<notin> set new" by auto
      with y(1) have "y \<in> set (queue w)" by simp
      with p(5) j y(2) show "status y \<noteq> Complete" unfolding suited_def by blast
    qed
    have "consistent (w\<lparr> queue := queue w @ new \<rparr>)"
      by (rule consistent_suspended [where p = p and item = item and rest = rest])
        (use 1 2 s p in simp_all)
    then show ?thesis unfolding q .
  qed
qed

lemma removeItem_consistent:
  assumes "consistent w"
  shows "consistent (w\<lparr> queue := removeItem i (queue w) \<rparr>)"
proof -
  let ?q = "removeItem i (queue w)"
  have sub: "set ?q \<subseteq> set (queue w)" by (auto simp: removeItem_def)
  have 1: "\<forall>y \<in> set ?q. result y \<noteq> None \<longleftrightarrow> status y = Complete"
    using consistentD(1) [OF assms] sub by blast
  have 2: "distinct (map item_id ?q)"
    using consistentD(2) [OF assms] by (simp add: removeItem_def distinct_map_filter)
  show ?thesis
  proof (cases "running w = []")
    case True
    with 1 2 show ?thesis unfolding consistent_def by simp
  next
    case False
    with assms obtain p item rest where p: "running w = [p]" "isProcessing w" "pending p = item # rest"
      "status item \<noteq> Complete" "suited (queue w) (item # rest)"
      unfolding consistent_def by blast
    have "suited ?q (item # rest)"
      using p(5) sub unfolding suited_def by blast
    with 1 2 p show ?thesis
      by (intro consistent_suspended [where p = p and item = item and rest = rest]) simp_all
  qed
qed

lemma step_consistent:
  assumes "consistent w" and "enabled w e"
  shows "consistent (step w e)"
proof (cases e)
  case Launch
  with assms show ?thesis by (simp add: processQueue_consistent)
next
  case (Settle k outcome)
  with assms show ?thesis by (simp add: settle_consistent)
next
  case (HandleFiles files)
  with assms show ?thesis by (simp add: handleFiles_consistent)
next
  case (RemoveItem i)
  with assms show ?thesis by (simp add: removeItem_consistent)
next
  case ClearQueue
  with assms have "\<not> isProcessing w" by simp
  with assms(1) have "running w = []" unfolding consistent_def by blast
  with ClearQueue show ?thesis by (simp add: consistent_def)
next
  case (SetLocation v)
  with assms(1) show ?thesis by (simp add: consistent_def)
next
  case (SetLens v)
  with assms(1) show ?thesis by (simp add: consistent_def)
next
  case (SetDynamic v)
  with assms(1) show ?thesis by (simp add: consistent_def)
next
  case (SetIncludeInteriors v)
  with assms(1) show ?thesis by (simp add: consistent_def)
qed

lemma reachable_consistent: "reachable w \<Longrightarrow> consistent w"
proof (induction rule: reachable.induct)
  case reachable_initial
  show ?case by (simp add: consistent_def initial_def)
next
  case (reachable_step w e)
  then show ?case by (simp add: step_consistent)
qed

lemma continue_pass_queue:
  "queue (continue_pass p items w) = queue w \<or>
   (\<exists>j \<in> set items. queue (continue_pass p items w) = touch (item_id j) started (queue w))"
  by (induction items) (auto simp: before_fetch_touch)

lemma touch_same_id:
  assumes "y \<in> set (touch i g q)" and "item_id y = i" and "\<And>x. item_id (g x) = item_id x"
  shows "\<exists>x \<in> set q. item_id x = i \<and> y = g x"
proof -
  from assms(1) obtain x where x: "x \<in> set q" "y = (if item_id x \<noteq> i then x else g x)"
    unfolding in_touch by blast
  show ?thesis
  proof (cases "item_id x = i")
    case True
    with x show ?thesis by auto
  next
    case False
    with x assms(2) show ?thesis by simp
  qed
qed

lemma touch_other_id:
  assumes "y \<in> set (touch i g q)" and "item_id y \<noteq> i" and "\<And>x. item_id (g x) = item_id x"
  shows "y \<in> set q"
proof -
  from assms(1) obtain x where x: "x \<in> set q" "y = (if item_id x \<noteq> i then x else g x)"
    unfolding in_touch by blast
  show ?thesis
  proof (cases "item_id x = i")
    case True
    with x assms(2,3) show ?thesis by simp
  next
    case False
    with x show ?thesis by simp
  qed
qed

lemma settle_item:
  assumes "consistent w" and "running w = [p]" and "pending p = item # rest"
    and "y \<in> set (queue (settle 0 outcome w))" and "item_id y = item_id item"
  shows "\<exists>x \<in> set (queue w). item_id x = item_id item \<and> y = settled outcome x"
proof -
  let ?w = "w\<lparr> queue := touch (item_id item) (settled outcome) (queue w), running := [] \<rparr>"
  have s: "settle 0 outcome w = continue_pass p rest ?w"
    using assms(2,3) by (simp add: settle_def after_fetch_touch)
  from assms(1,2,3) have "suited (queue w) (item # rest)" unfolding consistent_def by auto
  then have "distinct (map item_id (item # rest))" unfolding suited_def by blast
  then have "item_id item \<notin> item_id ` set rest" by simp
  then have other: "item_id j \<noteq> item_id item" if "j \<in> set rest" for j
    using that by (metis imageI)
  have "y \<in> set (queue ?w)"
  proof -
    from continue_pass_queue [of p rest ?w]
    consider "queue (continue_pass p rest ?w) = queue ?w"
      | j where "j \<in> set rest" "queue (continue_pass p rest ?w) = touch (item_id j) started (queue ?w)"
      by blast
    then show ?thesis
    proof cases
      case 1
      with assms(4) s show ?thesis by simp
    next
      case 2
      with assms(4) s have "y \<in> set (touch (item_id j) started (queue ?w))" by simp
      moreover have "item_id y \<noteq> item_id j" using other [OF 2(1)] assms(5) by simp
      ultimately show ?thesis by (rule touch_other_id) (simp add: started_simps)
    qed
  qed
  then have "y \<in> set (touch (item_id item) (settled outcome) (queue w))" by simp
  then show ?thesis using assms(5) by (rule touch_same_id) (simp add: settled_id)
qed

lemma run_Nil: "run w [] = w" by (simp add: run_def)
lemma run_Cons: "run w (e # events) = run (step w e) events" by (simp add: run_def)
lemma reachable_run: "reachable w \<Longrightarrow> possible w events \<Longrightarrow> reachable (run w events)"
proof (induction events arbitrary: w)
  case Nil
  then show ?case by (simp add: run_Nil)
next
  case (Cons e events)
  then show ?case by (simp add: run_Cons reachable_step)
qed

lemma reachable_launched: "reachable launched"
  unfolding launched_def
  by (rule reachable_run [OF reachable_initial]) code_simp

lemma reachable_finished: "reachable finished"
  unfolding finished_def
  by (rule reachable_run [OF reachable_launched]) code_simp

text \<open>
  Claim C4: in every state the component can reach, an item of the queue has a result
  attached exactly when its status is \<open>complete\<close>; in particular an item in \<open>error\<close> has
  none. When the \<open>fetch\<close> for an item ends, the item is left in exactly one of the two
  terminal states: \<open>complete\<close> with a result, or \<open>error\<close> without one.
\<close>

theorem result_iff_complete:
  assumes "reachable w"
  shows "(x \<in> set (queue w) \<longrightarrow>
            (result x \<noteq> None \<longleftrightarrow> status x = Complete) \<and> (status x = Error \<longrightarrow> result x = None)) \<and>
         (running w = [p] \<and> pending p = item # rest \<and>
          y \<in> set (queue (step w (Settle 0 outcome))) \<and> item_id y = item_id item \<longrightarrow>
            (status y = Complete \<and> result y \<noteq> None) \<or> (status y = Error \<and> result y = None))"
proof -
  have c: "consistent w" using assms by (rule reachable_consistent)
  have 1: "(result x \<noteq> None \<longleftrightarrow> status x = Complete) \<and> (status x = Error \<longrightarrow> result x = None)"
    if "x \<in> set (queue w)"
    using consistentD(1) [OF c] that by auto
  have 2: "(status y = Complete \<and> result y \<noteq> None) \<or> (status y = Error \<and> result y = None)"
    if r: "running w = [p]" "pending p = item # rest"
      and y: "y \<in> set (queue (step w (Settle 0 outcome)))" "item_id y = item_id item"
  proof -
    have "enabled w (Settle 0 outcome)" using r by simp
    with c have "consistent (step w (Settle 0 outcome))" by (rule step_consistent)
    from consistentD(1) [OF this] y(1)
    have iff: "result y \<noteq> None \<longleftrightarrow> status y = Complete" by blast
    from y(1) have "y \<in> set (queue (settle 0 outcome w))" by simp
    from settle_item [OF c r this y(2)]
    obtain x where "y = settled outcome x" by blast
    with settled_terminal [of outcome x]
    have "status y = Complete \<or> status y = Error" by auto
    with iff show ?thesis by auto
  qed
  from 1 2 show ?thesis by blast
qed

theorem result_iff_complete_witness:
  "status (queue finished ! 0) = Complete \<and> result (queue finished ! 0) \<noteq> None \<and>
   status (queue finished ! 1) = Error \<and> result (queue finished ! 1) = None \<and>
   status (queue (step launched (Settle 0 (Thrown None))) ! 0) = Error \<and>
   result (queue (step launched (Settle 0 (Thrown None))) ! 0) = None"
proof -
  have l: "length (queue finished) = 2" by code_simp
  have s: "status (queue finished ! 0) = Complete" "status (queue finished ! 1) = Error"
    by code_simp+
  have m: "queue finished ! 0 \<in> set (queue finished)" "queue finished ! 1 \<in> set (queue finished)"
    using l by simp_all
  have 1: "result (queue finished ! 0) \<noteq> None"
    using result_iff_complete [OF reachable_finished, of "queue finished ! 0"] m(1) s(1) by blast
  have 2: "result (queue finished ! 1) = None"
    using result_iff_complete [OF reachable_finished, of "queue finished ! 1"] m(2) s(2) by blast
  let ?w = "step launched (Settle 0 (Thrown None))"
  have r: "running launched = [hd (running launched)]"
    "pending (hd (running launched)) = hd (pending (hd (running launched))) # tl (pending (hd (running launched)))"
    "queue ?w ! 0 \<in> set (queue ?w)"
    "item_id (queue ?w ! 0) = item_id (hd (pending (hd (running launched))))"
    "status (queue ?w ! 0) \<noteq> Complete"
    by code_simp+
  have 3: "status (queue ?w ! 0) = Error \<and> result (queue ?w ! 0) = None"
    using result_iff_complete [OF reachable_launched, of _ "hd (running launched)"
        "hd (pending (hd (running launched)))" "tl (pending (hd (running launched)))"
        "queue ?w ! 0" "Thrown None"] r
    by blast
  from s 1 2 3 show ?thesis by blast
qed

lemma form_of_pending: "form_of (p\<lparr> pending := items \<rparr>) = form_of p"
  by (simp add: form_of_def fun_eq_iff)

lemma continue_pass_todo_Nil:
  "todo items = [] \<Longrightarrow> continue_pass p items w = w\<lparr> isProcessing := False \<rparr>"
  by (induction items) (simp_all add: todo_def split: if_splits)

lemma continue_pass_todo_Cons:
  "todo items = j # js \<Longrightarrow>
   \<exists>rest. todo rest = js \<and>
     continue_pass p items w =
       w\<lparr> queue := before_fetch j (queue w), requests := requests w @ [form_of p j],
          running := running w @ [p\<lparr> pending := j # rest \<rparr>] \<rparr>"
proof (induction items)
  case Nil
  then show ?case by (simp add: todo_def)
next
  case (Cons item rest)
  show ?case
  proof (cases "status item = Complete")
    case True
    with Cons show ?thesis by (simp add: todo_def)
  next
    case False
    with Cons.prems have "j = item" "todo rest = js" by (simp_all add: todo_def)
    with False show ?thesis by auto
  qed
qed

lemma settles_sequential:
  assumes "running w = [p]" and "pending p = item # rest" and "status item \<noteq> Complete"
    and "length outcomes \<le> Suc (length (todo rest))"
  shows "requests (run w (map (Settle 0) outcomes)) =
           requests w @ map (form_of p) (take (length outcomes) (todo rest)) \<and>
         length (running (run w (map (Settle 0) outcomes))) =
           (if length outcomes < Suc (length (todo rest)) then 1 else 0) \<and>
         isProcessing (run w (map (Settle 0) outcomes)) =
           (if length outcomes < Suc (length (todo rest)) then isProcessing w else False)"
  using assms
proof (induction outcomes arbitrary: w p item rest)
  case Nil
  then show ?case by (simp add: run_Nil)
next
  case (Cons outcome outcomes)
  let ?w = "w\<lparr> queue := after_fetch outcome item (queue w), running := [] \<rparr>"
  have s: "step w (Settle 0 outcome) = continue_pass p rest ?w"
    using Cons.prems(1,2) by (simp add: settle_def)
  show ?case
  proof (cases "todo rest")
    case Nil
    with Cons.prems(4) have o: "outcomes = []" by simp
    from Nil have "continue_pass p rest ?w = ?w\<lparr> isProcessing := False \<rparr>"
      by (rule continue_pass_todo_Nil)
    with s o Nil show ?thesis by (simp add: run_Cons run_Nil)
  next
    case (Cons j js)
    from continue_pass_todo_Cons [OF this, of p ?w]
    obtain rest' where r: "todo rest' = js"
      and c: "continue_pass p rest ?w =
        ?w\<lparr> queue := before_fetch j (queue ?w), requests := requests ?w @ [form_of p j],
           running := running ?w @ [p\<lparr> pending := j # rest' \<rparr>] \<rparr>"
      by blast
    let ?w' = "step w (Settle 0 outcome)"
    have j: "status j \<noteq> Complete"
    proof -
      have "j \<in> set (todo rest)" using Cons by simp
      then show ?thesis by (simp add: todo_def)
    qed
    have 1: "running ?w' = [p\<lparr> pending := j # rest' \<rparr>]" using s c by simp
    have 2: "pending (p\<lparr> pending := j # rest' \<rparr>) = j # rest'" by simp
    have 3: "length outcomes \<le> Suc (length (todo rest'))"
      using Cons.prems(4) Cons r by simp
    note ih = Cons.IH [OF 1 2 j 3]
    have q: "requests ?w' = requests w @ [form_of p j]" using s c by simp
    have i: "isProcessing ?w' = isProcessing w" using s c by simp
    from ih q i r Cons show ?thesis
      by (simp add: run_Cons form_of_pending)
  qed
qed

lemma ready_todo:
  assumes "readyForProcessing q"
  shows "todo q \<noteq> []"
proof -
  from assms obtain item where "item \<in> set q" "status item = Idle \<or> status item = Ready"
    unfolding readyForProcessing_def by blast
  then have "item \<in> set (todo q)" by (auto simp: todo_def)
  then show ?thesis by auto
qed

lemma pass_sequential:
  assumes "\<not> isProcessing w" and "readyForProcessing (queue w)" and "running w = []"
    and "length outcomes \<le> length (todo (queue w))"
  shows "requests (run w (Launch # map (Settle 0) outcomes)) =
           requests w @ map (form_of (capture w)) (take (Suc (length outcomes)) (todo (queue w))) \<and>
         length (running (run w (Launch # map (Settle 0) outcomes))) =
           (if length outcomes < length (todo (queue w)) then 1 else 0) \<and>
         isProcessing (run w (Launch # map (Settle 0) outcomes)) =
           (length outcomes < length (todo (queue w)))"
proof -
  from ready_todo [OF assms(2)] obtain j js where t: "todo (queue w) = j # js"
    by (cases "todo (queue w)") auto
  let ?w = "w\<lparr> isProcessing := True \<rparr>"
  from continue_pass_todo_Cons [OF t, of "capture w" ?w]
  obtain rest where r: "todo rest = js"
    and c: "continue_pass (capture w) (queue w) ?w =
        ?w\<lparr> queue := before_fetch j (queue ?w), requests := requests ?w @ [form_of (capture w) j],
           running := running ?w @ [capture w\<lparr> pending := j # rest \<rparr>] \<rparr>"
    by blast
  let ?w' = "step w Launch"
  have s: "?w' = continue_pass (capture w) (queue w) ?w"
    using assms(1,2) by (simp add: processQueue_def)
  have j: "status j \<noteq> Complete"
  proof -
    have "j \<in> set (todo (queue w))" using t by simp
    then show ?thesis by (simp add: todo_def)
  qed
  have 1: "running ?w' = [capture w\<lparr> pending := j # rest \<rparr>]" using s c assms(3) by simp
  have 2: "pending (capture w\<lparr> pending := j # rest \<rparr>) = j # rest" by simp
  have 3: "length outcomes \<le> Suc (length (todo rest))" using assms(4) t r by simp
  note seq = settles_sequential [OF 1 2 j 3]
  have q: "requests ?w' = requests w @ [form_of (capture w) j]" using s c by simp
  have i: "isProcessing ?w'" using s c by simp
  from seq q i r t show ?thesis
    by (simp add: run_Cons form_of_pending)
qed

text \<open>
  Claim C3: the orchestrator works through the queue one request at a time. Invoked while
  \<open>isProcessing\<close> holds or while no item is \<open>idle\<close> or \<open>ready\<close>, \<open>processQueue\<close> changes nothing:
  the state, and with it the queue and the list of requests sent, stays as it was. In every
  reachable state at most one pass is suspended at its \<open>fetch\<close>, so at most one request is
  in flight, and a pass is suspended only while \<open>isProcessing\<close> holds. A pass launched from
  an idle state sends one request per item that is not complete, in queue order, the next
  one only once the previous \<open>fetch\<close> has ended, and whatever the outcomes were: after \<open>n\<close>
  outcomes the requests sent are those of the first \<open>n + 1\<close> such items, and the pass ends
  (no request in flight, \<open>isProcessing\<close> reset) exactly when every one of them has had its
  outcome.
\<close>

theorem orchestrator_sequential:
  "(isProcessing w \<or> \<not> readyForProcessing (queue w) \<longrightarrow> step w Launch = w) \<and>
   (reachable w \<longrightarrow> length (running w) \<le> 1 \<and> (running w \<noteq> [] \<longrightarrow> isProcessing w)) \<and>
   (\<not> isProcessing w \<and> readyForProcessing (queue w) \<and> running w = [] \<and>
    length outcomes \<le> length (todo (queue w)) \<longrightarrow>
      requests (run w (Launch # map (Settle 0) outcomes)) =
        requests w @ map (form_of (capture w)) (take (Suc (length outcomes)) (todo (queue w))) \<and>
      length (running (run w (Launch # map (Settle 0) outcomes))) =
        (if length outcomes < length (todo (queue w)) then 1 else 0) \<and>
      isProcessing (run w (Launch # map (Settle 0) outcomes)) =
        (length outcomes < length (todo (queue w))))"
proof -
  have 1: "step w Launch = w" if "isProcessing w \<or> \<not> readyForProcessing (queue w)"
    using that by (auto simp: processQueue_def)
  have 2: "length (running w) \<le> 1 \<and> (running w \<noteq> [] \<longrightarrow> isProcessing w)" if "reachable w"
  proof -
    from that have "consistent w" by (rule reachable_consistent)
    then show ?thesis unfolding consistent_def by auto
  qed
  from 1 2 pass_sequential [of w outcomes] show ?thesis by blast
qed

theorem orchestrator_sequential_witness:
  "step launched Launch = launched \<and>
   step finished Launch = finished \<and>
   length (running launched) \<le> 1 \<and>
   requests (run (step initial (HandleFiles sample_uploads))
       (Launch # map (Settle 0) [NotOk ''Internal Server Error'', OkJson (Some sample_payload)])) =
     map (form_of (capture (step initial (HandleFiles sample_uploads))))
       (queue (step initial (HandleFiles sample_uploads))) \<and>
   running (run (step initial (HandleFiles sample_uploads))
       (Launch # map (Settle 0) [NotOk ''Internal Server Error'', OkJson (Some sample_payload)])) = []"
proof -
  let ?w = "step initial (HandleFiles sample_uploads)"
  let ?os = "[NotOk ''Internal Server Error'', OkJson (Some sample_payload)]"
  have a: "isProcessing launched \<or> \<not> readyForProcessing (queue launched)" by code_simp
  have b: "isProcessing finished \<or> \<not> readyForProcessing (queue finished)" by code_simp
  have c: "\<not> isProcessing ?w \<and> readyForProcessing (queue ?w) \<and> running ?w = [] \<and>
      length ?os \<le> length (todo (queue ?w))" by code_simp
  have d: "todo (queue ?w) = queue ?w" "length (queue ?w) = 2" "requests ?w = []" by code_simp+
  have 1: "step launched Launch = launched"
    using orchestrator_sequential [of launched "[]"] a by blast
  have 2: "step finished Launch = finished"
    using orchestrator_sequential [of finished "[]"] b by blast
  have 3: "length (running launched) \<le> 1"
    using orchestrator_sequential [of launched "[]"] reachable_launched by blast
  have 4: "requests (run ?w (Launch # map (Settle 0) ?os)) =
        requests ?w @ map (form_of (capture ?w)) (take (Suc (length ?os)) (todo (queue ?w))) \<and>
      length (running (run ?w (Launch # map (Settle 0) ?os))) =
        (if length ?os < length (todo (queue ?w)) then 1 else 0)"
    using orchestrator_sequential [of ?w ?os] c by blast
  from 4 d have 5: "requests (run ?w (Launch # map (Settle 0) ?os)) = map (form_of (capture ?w)) (queue ?w)"
    "running (run ?w (Launch # map (Settle 0) ?os)) = []"
    by simp_all
  from 1 2 3 5 show ?thesis by blast
qed

lemma continue_pass_effect:
  "(requests (continue_pass p items w) = requests w \<and> running (continue_pass p items w) = running w) \<or>
   (\<exists>j rest. requests (continue_pass p items w) = requests w @ [form_of p j] \<and>
      running (continue_pass p items w) = running w @ [p\<lparr> pending := j # rest \<rparr>])"
  by (induction items) auto

lemma styled_continue:
  assumes "styled c n w" and "form_of p = form_of c"
  shows "styled c n (continue_pass p items w)"
proof -
  let ?w = "continue_pass p items w"
  from continue_pass_effect [of p items w]
  consider "requests ?w = requests w" "running ?w = running w"
    | j rest where "requests ?w = requests w @ [form_of p j]"
        "running ?w = running w @ [p\<lparr> pending := j # rest \<rparr>]"
    by blast
  then show ?thesis
  proof cases
    case 1
    with assms(1) show ?thesis by (simp add: styled_def)
  next
    case 2
    from assms(1) have n: "n \<le> length (requests w)"
      and ps: "\<forall>p \<in> set (running w). form_of p = form_of c"
      and rs: "\<forall>r \<in> set (drop n (requests w)). \<exists>j. r = form_of c j"
      unfolding styled_def by blast+
    have a: "n \<le> length (requests ?w)" using n 2(1) by simp
    have b: "\<forall>p \<in> set (running ?w). form_of p = form_of c"
      using ps assms(2) 2(2) by (auto simp: form_of_pending)
    have "drop n (requests ?w) = drop n (requests w) @ [form_of c j]"
      using n 2(1) assms(2) by simp
    with rs have c: "\<forall>r \<in> set (drop n (requests ?w)). \<exists>j. r = form_of c j" by auto
    from a b c show ?thesis unfolding styled_def by blast
  qed
qed

lemma styled_settle:
  assumes "styled c n w"
  shows "styled c n (settle k outcome w)"
proof (cases "k < length (running w)")
  case False
  with assms show ?thesis by (simp add: settle_def)
next
  case True
  show ?thesis
  proof (cases "pending (running w ! k)")
    case Nil
    with True assms show ?thesis by (simp add: settle_def)
  next
    case (Cons item rest)
    let ?w = "w\<lparr> queue := after_fetch outcome item (queue w),
                 running := take k (running w) @ drop (Suc k) (running w) \<rparr>"
    from assms have n: "n \<le> length (requests w)"
      and ps: "\<forall>p \<in> set (running w). form_of p = form_of c"
      and rs: "\<forall>r \<in> set (drop n (requests w)). \<exists>j. r = form_of c j"
      unfolding styled_def by blast+
    have "set (take k (running w) @ drop (Suc k) (running w)) \<subseteq> set (running w)"
      using set_take_subset set_drop_subset by fastforce
    with ps have "\<forall>p \<in> set (running ?w). form_of p = form_of c" by auto
    with n rs have "styled c n ?w" unfolding styled_def by simp
    moreover have "form_of (running w ! k) = form_of c" using ps True by simp
    ultimately have "styled c n (continue_pass (running w ! k) rest ?w)" by (rule styled_continue)
    with True Cons show ?thesis by (simp add: settle_def)
  qed
qed

lemma styled_step:
  assumes "styled c n w" and "e \<noteq> Launch"
  shows "styled c n (step w e)"
proof (cases e)
  case (Settle k outcome)
  with assms(1) show ?thesis by (simp add: styled_settle)
qed (use assms in \<open>simp_all add: styled_def\<close>)

lemma styled_run:
  assumes "styled c n w" and "Launch \<notin> set events"
  shows "styled c n (run w events)"
  using assms
proof (induction events arbitrary: w)
  case Nil
  then show ?case by (simp add: run_Nil)
next
  case (Cons e events)
  from Cons.prems have "e \<noteq> Launch" "Launch \<notin> set events" by auto
  with Cons.prems(1) have "styled c n (step w e)" by (simp add: styled_step)
  with Cons.IH \<open>Launch \<notin> set events\<close> show ?case by (simp add: run_Cons)
qed

lemma styled_launch:
  assumes "running w = []"
  shows "styled (capture w) (length (requests w)) (step w Launch)"
proof (cases "\<not> readyForProcessing (queue w) \<or> isProcessing w")
  case True
  with assms show ?thesis by (simp add: processQueue_def styled_def)
next
  case False
  have "styled (capture w) (length (requests w)) (w\<lparr> isProcessing := True \<rparr>)"
    using assms by (simp add: styled_def)
  then have "styled (capture w) (length (requests w))
      (continue_pass (capture w) (queue w) (w\<lparr> isProcessing := True \<rparr>))"
    by (rule styled_continue) simp
  with False show ?thesis by (simp add: processQueue_def)
qed

lemma form_of_capture:
  "form_get (form_of (capture w) j) ''location'' = Some (FText (location w))"
  "form_get (form_of (capture w) j) ''lens'' = Some (FText (lens w))"
  "form_get (form_of (capture w) j) ''dynamic'' = Some (FText (dynamic w))"
  "form_get (form_of (capture w) j) ''includeInteriors'' = Some (FText (String_of_bool (includeInteriors w)))"
  by (simp_all add: form_get_def form_of_def capture_def)

text \<open>
  Claim C8, as the specification has it: the style parameters are read at the moment each
  item begins processing, so a change made while a pass is running affects the items that
  have not yet started. It fails: with two items queued and the lens changed to
  \<open>action-zoom\<close> while the first request is in flight and the second item is still \<open>ready\<close>,
  the second request is sent with \<open>wide-immersive\<close>, the lens of the launch.
\<close>

theorem late_change_counterexample:
  "lens (run initial [HandleFiles sample_uploads, Launch, SetLens ''action-zoom'']) = ''action-zoom'' \<and>
   status (queue (run initial [HandleFiles sample_uploads, Launch, SetLens ''action-zoom'']) ! 1) = Ready \<and>
   length (requests (run initial [HandleFiles sample_uploads, Launch, SetLens ''action-zoom''])) = 1 \<and>
   length (requests (run initial [HandleFiles sample_uploads, Launch, SetLens ''action-zoom'',
      Settle 0 (OkJson (Some sample_payload))])) = 2 \<and>
   form_get (requests (run initial [HandleFiles sample_uploads, Launch, SetLens ''action-zoom'',
      Settle 0 (OkJson (Some sample_payload))]) ! 1) ''lens'' = Some (FText ''wide-immersive'')"
  by code_simp

text \<open>
  Claim C8, amended: the style parameters of a pass are those of the state in which it was
  launched; \<open>processQueue\<close> reads the constants of its render, not the current state. From an
  idle state, every request sent after the launch and before any further launch carries
  the locale, lens, dynamic and interior toggle that held at the launch, whatever else
  happens meanwhile: a change made while the pass is running affects no item of that pass.
\<close>

theorem pass_keeps_launch_parameters:
  assumes "running w = []" and "Launch \<notin> set events"
  shows "\<forall>r \<in> set (drop (length (requests w)) (requests (run w (Launch # events)))).
           form_get r ''location'' = Some (FText (location w)) \<and>
           form_get r ''lens'' = Some (FText (lens w)) \<and>
           form_get r ''dynamic'' = Some (FText (dynamic w)) \<and>
           form_get r ''includeInteriors'' = Some (FText (String_of_bool (includeInteriors w)))"
proof
  fix r
  assume r: "r \<in> set (drop (length (requests w)) (requests (run w (Launch # events))))"
  have "styled (capture w) (length (requests w)) (run (step w Launch) events)"
    using styled_launch [OF assms(1)] assms(2) by (rule styled_run)
  then have "\<forall>r \<in> set (drop (length (requests w)) (requests (run w (Launch # events)))).
      \<exists>j. r = form_of (capture w) j"
    unfolding styled_def run_Cons by blast
  with r obtain j where "r = form_of (capture w) j" by blast
  then show "form_get r ''location'' = Some (FText (location w)) \<and>
           form_get r ''lens'' = Some (FText (lens w)) \<and>
           form_get r ''dynamic'' = Some (FText (dynamic w)) \<and>
           form_get r ''includeInteriors'' = Some (FText (String_of_bool (includeInteriors w)))"
    by (simp add: form_of_capture)
qed

theorem pass_keeps_launch_parameters_witness:
  "form_get (requests (run (step initial (HandleFiles sample_uploads))
      [Launch, SetLens ''action-zoom'', SetIncludeInteriors False,
       Settle 0 (OkJson (Some sample_payload))]) ! 1) ''lens'' = Some (FText ''wide-immersive'') \<and>
   form_get (requests (run (step initial (HandleFiles sample_uploads))
      [Launch, SetLens ''action-zoom'', SetIncludeInteriors False,
       Settle 0 (OkJson (Some sample_payload))]) ! 1) ''includeInteriors'' = Some (FText ''true'')"
proof -
  let ?w = "step initial (HandleFiles sample_uploads)"
  let ?es = "[SetLens ''action-zoom'', SetIncludeInteriors False, Settle 0 (OkJson (Some sample_payload))]"
  have a: "running ?w = []" "Launch \<notin> set ?es" by code_simp+
  have b: "requests (run ?w (Launch # ?es)) ! 1 \<in>
      set (drop (length (requests ?w)) (requests (run ?w (Launch # ?es))))"
    by code_simp
  have c: "lens ?w = ''wide-immersive''" "String_of_bool (includeInteriors ?w) = ''true''"
    by code_simp+
  from pass_keeps_launch_parameters [OF a] b c show ?thesis by auto
qed

lemma merged_logs: "prefix (logs item) (logs (merged item u))"
  by (simp add: merged_def split: option.splits)

lemma merged_logs_Some: "new_logs u = Some entries \<Longrightarrow> logs (merged item u) = logs item @ entries"
  by (simp add: merged_def)

lemma updateQueueItem_nth:
  "n < length prev \<Longrightarrow>
   updateQueueItem i u prev ! n = (if item_id (prev ! n) \<noteq> i then prev ! n else merged (prev ! n) u)"
  by (simp add: updateQueueItem_def)

lemma grown_refl: "grown q q"
  unfolding grown_def by auto

lemma grown_trans:
  assumes "grown q q'" and "grown q' q''"
  shows "grown q q''"
  unfolding grown_def
proof
  fix z assume "z \<in> set q''"
  with assms(2) obtain y where y: "y \<in> set q'" "item_id y = item_id z" "prefix (logs y) (logs z)"
    unfolding grown_def by blast
  with assms(1) obtain x where x: "x \<in> set q" "item_id x = item_id y" "prefix (logs x) (logs y)"
    unfolding grown_def by blast
  from x(3) y(3) have "prefix (logs x) (logs z)" by (rule prefix_order.trans)
  with x(1,2) y(2) show "\<exists>x \<in> set q. item_id x = item_id z \<and> prefix (logs x) (logs z)" by auto
qed

lemma grown_touch:
  assumes "\<And>x. item_id (g x) = item_id x" and "\<And>x. prefix (logs x) (logs (g x))"
  shows "grown q (touch i g q)"
  unfolding grown_def
proof
  fix y assume "y \<in> set (touch i g q)"
  then obtain x where x: "x \<in> set q" "y = (if item_id x \<noteq> i then x else g x)"
    unfolding in_touch by blast
  have "item_id x = item_id y \<and> prefix (logs x) (logs y)"
    using x(2) assms by (cases "item_id x = i") simp_all
  with x(1) show "\<exists>x \<in> set q. item_id x = item_id y \<and> prefix (logs x) (logs y)" by blast
qed

lemma grown_subset: "set q' \<subseteq> set q \<Longrightarrow> grown q q'"
  unfolding grown_def by auto

lemma settled_logs: "prefix (logs x) (logs (settled outcome x))"
  by (cases outcome) (simp_all add: settled_def split: option.splits)

lemma grown_continue: "grown (queue w) (queue (continue_pass p items w))"
proof -
  from continue_pass_queue [of p items w]
  consider "queue (continue_pass p items w) = queue w"
    | j where "j \<in> set items" "queue (continue_pass p items w) = touch (item_id j) started (queue w)"
    by blast
  then show ?thesis
  proof cases
    case 1
    then show ?thesis by (simp add: grown_refl)
  next
    case 2
    then show ?thesis by (simp add: grown_touch started_simps)
  qed
qed

lemma grown_step:
  assumes "\<And>files. e \<noteq> HandleFiles files"
  shows "grown (queue w) (queue (step w e))"
proof (cases e)
  case Launch
  have "grown (queue (w\<lparr> isProcessing := True \<rparr>))
      (queue (continue_pass (capture w) (queue w) (w\<lparr> isProcessing := True \<rparr>)))"
    by (rule grown_continue)
  with Launch show ?thesis by (simp add: processQueue_def grown_refl)
next
  case (Settle k outcome)
  show ?thesis
  proof (cases "k < length (running w)")
    case False
    with Settle show ?thesis by (simp add: settle_def grown_refl)
  next
    case True
    show ?thesis
    proof (cases "pending (running w ! k)")
      case Nil
      with True Settle show ?thesis by (simp add: settle_def grown_refl)
    next
      case (Cons item rest)
      let ?w = "w\<lparr> queue := after_fetch outcome item (queue w),
                   running := take k (running w) @ drop (Suc k) (running w) \<rparr>"
      have "grown (queue w) (queue ?w)"
        by (simp add: after_fetch_touch grown_touch settled_id settled_logs)
      moreover have "grown (queue ?w) (queue (continue_pass (running w ! k) rest ?w))"
        by (rule grown_continue)
      ultimately have "grown (queue w) (queue (continue_pass (running w ! k) rest ?w))"
        by (rule grown_trans)
      with True Cons Settle show ?thesis by (simp add: settle_def)
    qed
  qed
next
  case (HandleFiles fs)
  with assms [of fs] show ?thesis by simp
next
  case (RemoveItem i)
  then show ?thesis by (simp add: removeItem_def grown_subset)
next
  case ClearQueue
  then show ?thesis by (simp add: grown_def)
qed (simp_all add: grown_refl)

lemma kept_item:
  assumes "enabled w e" and "y \<in> set (queue (step w e))" and "item_id y \<in> item_id ` set (queue w)"
  shows "\<exists>x \<in> set (queue w). item_id x = item_id y \<and> prefix (logs x) (logs y)"
proof (cases "\<exists>fs. e = HandleFiles (Some fs)")
  case False
  show ?thesis
  proof (cases "e = HandleFiles None")
    case True
    with assms(2) have "y \<in> set (queue w)" by (simp add: handleFiles_def)
    then show ?thesis by auto
  next
    case none: False
    have "e \<noteq> HandleFiles files" for files
      using False none by (cases files) auto
    then have "grown (queue w) (queue (step w e))" by (rule grown_step)
    with assms(2) show ?thesis unfolding grown_def by blast
  qed
next
  case True
  then obtain fs where e: "e = HandleFiles (Some fs)" by blast
  define new where "new = map queued (filter supported fs)"
  have ids: "map item_id new = map (\<lambda>f. fst (snd f)) (filter supported fs)"
    by (simp add: new_def queued_def)
  from assms(1) have "set (map (\<lambda>f. fst (snd f)) (filter supported fs)) \<inter> known_ids w = {}"
    unfolding e by simp
  then have "set (map item_id new) \<inter> item_id ` set (queue w) = {}"
    unfolding ids known_ids_def by blast
  with assms(3) have "item_id y \<notin> set (map item_id new)" by blast
  then have "y \<notin> set new" by auto
  moreover have "y \<in> set (queue w @ new)"
    using assms(2) unfolding e new_def by (simp add: handleFiles_def)
  ultimately have "y \<in> set (queue w)" by simp
  then show ?thesis by auto
qed

text \<open>
  Claim C9: an update of the queue store keeps every item's logs as the front of its new
  logs. \<open>updateQueueItem\<close> keeps the length of the queue and, position by position, extends
  the logs; where the update carries log entries, they are appended to the logs of the item
  it is applied to, and \<open>appendLog\<close> appends its entry. No event of the component removes or
  reorders the logs of an item that stays in the queue: after any event, an item whose
  identifier was in the queue before continues an item with that identifier, whose logs
  are a prefix of its own.
\<close>

theorem logs_only_grow:
  "length (updateQueueItem i u prev) = length prev \<and>
   (n < length prev \<longrightarrow> prefix (logs (prev ! n)) (logs (updateQueueItem i u prev ! n))) \<and>
   (n < length prev \<and> item_id (prev ! n) = i \<and> new_logs u = Some entries \<longrightarrow>
      logs (updateQueueItem i u prev ! n) = logs (prev ! n) @ entries) \<and>
   (n < length prev \<and> item_id (prev ! n) = i \<longrightarrow>
      logs (appendLog i entry prev ! n) = logs (prev ! n) @ [entry]) \<and>
   (enabled w e \<and> y \<in> set (queue (step w e)) \<and> item_id y \<in> item_id ` set (queue w) \<longrightarrow>
      (\<exists>x \<in> set (queue w). item_id x = item_id y \<and> prefix (logs x) (logs y)))"
proof -
  have 1: "length (updateQueueItem i u prev) = length prev"
    by (simp add: updateQueueItem_def)
  have 2: "prefix (logs (prev ! n)) (logs (updateQueueItem i u prev ! n))" if "n < length prev"
    using that by (simp add: updateQueueItem_nth merged_logs)
  have 3: "logs (updateQueueItem i u prev ! n) = logs (prev ! n) @ entries"
    if "n < length prev" "item_id (prev ! n) = i" "new_logs u = Some entries"
    using that by (simp add: updateQueueItem_nth merged_logs_Some)
  have 4: "logs (appendLog i entry prev ! n) = logs (prev ! n) @ [entry]"
    if "n < length prev" "item_id (prev ! n) = i"
    using that by (simp add: appendLog_def updateQueueItem_nth merged_logs_Some)
  from 1 2 3 4 kept_item [of w e y] show ?thesis by blast
qed

theorem logs_only_grow_witness:
  "logs (appendLog ''id-1'' ''note'' (queue launched) ! 0) = logs (queue launched ! 0) @ [''note''] \<and>
   prefix (logs (queue launched ! 1)) (logs (appendLog ''id-1'' ''note'' (queue launched) ! 1)) \<and>
   (\<exists>x \<in> set (queue launched).
      item_id x = ''id-1'' \<and>
      prefix (logs x) (logs (queue (step launched (Settle 0 (NotOk ''Internal Server Error''))) ! 0)))"
proof -
  let ?w = "step launched (Settle 0 (NotOk ''Internal Server Error''))"
  have a: "0 < length (queue launched)" "1 < length (queue launched)"
    "item_id (queue launched ! 0) = ''id-1''" by code_simp+
  have b: "enabled launched (Settle 0 (NotOk ''Internal Server Error''))"
    "queue ?w ! 0 \<in> set (queue ?w)" "item_id (queue ?w ! 0) \<in> item_id ` set (queue launched)"
    "item_id (queue ?w ! 0) = ''id-1''"
    by code_simp+
  have 1: "logs (appendLog ''id-1'' ''note'' (queue launched) ! 0) = logs (queue launched ! 0) @ [''note'']"
    using logs_only_grow [of "''id-1''" _ "queue launched" 0 _ "''note''"] a by blast
  have 2: "prefix (logs (queue launched ! 1)) (logs (appendLog ''id-1'' ''note'' (queue launched) ! 1))"
    using logs_only_grow [of "''id-1''" "no_updates\<lparr> new_logs := Some [''note''] \<rparr>" "queue launched" 1] a
    unfolding appendLog_def by blast
  have 3: "\<exists>x \<in> set (queue launched). item_id x = item_id (queue ?w ! 0) \<and>
      prefix (logs x) (logs (queue ?w ! 0))"
    using logs_only_grow [of _ _ _ _ _ _ launched "Settle 0 (NotOk ''Internal Server Error'')" "queue ?w ! 0"] b
    by blast
  from 1 2 3 b(4) show ?thesis by simp
qed

lemma continue_pass_ids: "map item_id (queue (continue_pass p items w)) = map item_id (queue w)"
proof -
  from continue_pass_queue [of p items w]
  consider "queue (continue_pass p items w) = queue w"
    | j where "j \<in> set items" "queue (continue_pass p items w) = touch (item_id j) started (queue w)"
    by blast
  then show ?thesis
  proof cases
    case 1
    then show ?thesis by simp
  next
    case 2
    then show ?thesis by (simp add: touch_ids started_simps)
  qed
qed

lemma settle_ids: "map item_id (queue (settle k outcome w)) = map item_id (queue w)"
  by (simp add: settle_def continue_pass_ids after_fetch_touch touch_ids settled_id
      split: list.splits)

lemma POST_rejected:
  assumes "truthy (OPENAI_API_KEY req)" and "formData req = Inr form"
    and "form_get form ''image'' = Some (FFile f)"
    and "analyzeSourceImage rt openai (toBase64 rt (file_bytes f))
           (if file_type f = [] then ''image/jpeg'' else file_type f) = (Inr analysis, calls)"
    and "shouldReject analysis"
  shows "POST rt openai req =
           (Inr \<lparr> http_status = 422,
                  http_body = ErrorBody ''Source image rejected'' (rejectionReason analysis) \<rparr>,
            [analysis_request (toBase64 rt (file_bytes f))
               (if file_type f = [] then ''image/jpeg'' else file_type f)])"
proof -
  have "calls = [analysis_request (toBase64 rt (file_bytes f))
               (if file_type f = [] then ''image/jpeg'' else file_type f)]"
    using snd_analyzeSourceImage [of rt openai "toBase64 rt (file_bytes f)"
        "if file_type f = [] then ''image/jpeg'' else file_type f"] assms(4)
    by simp
  with assms show ?thesis by (simp add: POST_def Let_def json_def)
qed

lemma refused_item:
  assumes "reachable w" and "running w = [p]" and "pending p = item # rest"
    and "y \<in> set (queue (step w (Settle 0 (NotOk t))))" and "item_id y = item_id item"
  shows "status y = Error \<and> error y = Some t \<and> result y = None"
proof -
  have c: "consistent w" using assms(1) by (rule reachable_consistent)
  have "enabled w (Settle 0 (NotOk t))" using assms(2) by simp
  with c have "consistent (step w (Settle 0 (NotOk t)))" by (rule step_consistent)
  from consistentD(1) [OF this] assms(4)
  have iff: "result y \<noteq> None \<longleftrightarrow> status y = Complete" by blast
  from assms(4) have "y \<in> set (queue (settle 0 (NotOk t) w))" by simp
  from settle_item [OF c assms(2,3) this assms(5)]
  obtain x where "y = settled (NotOk t) x" by blast
  then have "status y = Error" "error y = Some t" by (simp_all add: settled_def)
  with iff show ?thesis by auto
qed

text \<open>
  Claim C1: when the stage-1 analysis of a request has \<open>shouldReject\<close> set, the route answers
  422 with the analysis's \<open>rejectionReason\<close> in the body, and the one request it has sent to
  the provider is the analysis: neither the image request nor the verification is made. On
  the client the status 422 is not \<open>ok\<close>, so the uploader takes the text of the response, the
  JSON body that holds the reason: the item whose request was in flight stays in the queue
  and is left in status \<open>error\<close>, with that text as its error and without a result.
\<close>

theorem rejection_short_circuits:
  assumes "truthy (OPENAI_API_KEY req)" and "formData req = Inr form"
    and "form_get form ''image'' = Some (FFile f)"
    and "analyzeSourceImage rt openai (toBase64 rt (file_bytes f))
           (if file_type f = [] then ''image/jpeg'' else file_type f) = (Inr analysis, calls)"
    and "shouldReject analysis"
  shows "POST rt openai req =
           (Inr \<lparr> http_status = 422,
                  http_body = ErrorBody ''Source image rejected'' (rejectionReason analysis) \<rparr>,
            [analysis_request (toBase64 rt (file_bytes f))
               (if file_type f = [] then ''image/jpeg'' else file_type f)]) \<and>
         \<not> response_ok 422 \<and>
         map item_id (queue (step w
            (Settle 0 (NotOk (error_body_text ''Source image rejected'' (rejectionReason analysis)))))) =
           map item_id (queue w) \<and>
         (reachable w \<and> running w = [p] \<and> pending p = item # rest \<and>
          y \<in> set (queue (step w
            (Settle 0 (NotOk (error_body_text ''Source image rejected'' (rejectionReason analysis)))))) \<and>
          item_id y = item_id item \<longrightarrow>
            status y = Error \<and>
            error y = Some (error_body_text ''Source image rejected'' (rejectionReason analysis)) \<and>
            result y = None)"
  using POST_rejected [OF assms]
    refused_item [of w p item rest y "error_body_text ''Source image rejected'' (rejectionReason analysis)"]
  by (simp add: response_ok_def settle_ids)

lemma sample_rejection:
  "analyzeSourceImage sample_runtime (answering rejecting_text) ''YWJj'' ''image/jpeg'' =
     (Inr rejecting_analysis, [analysis_request ''YWJj'' ''image/jpeg''])"
proof -
  have "parsed_span rejecting_text = Some rejecting_text" by code_simp
  then have "cleanJson (JSON_parse sample_runtime) rejecting_text = Some rejecting_analysis"
    by (simp add: cleanJson_parsed_span sample_runtime_def)
  moreover have "extractMessageText (Output (Some [\<lparr> content = Some
      [\<lparr> block_type = Some ''output_text'', block_text = Some rejecting_text \<rparr>] \<rparr>])) = rejecting_text"
  proof -
    have "rejecting_text \<noteq> []" by (simp add: rejecting_text_def)
    then show ?thesis by (simp add: extractMessageText_def truthy_def)
  qed
  ultimately show ?thesis by (simp add: analyzeSourceImage_def answering_def)
qed

theorem rejection_short_circuits_witness:
  "POST sample_runtime (answering rejecting_text) (sample_request [(''image'', FFile sample_file)]) =
     (Inr \<lparr> http_status = 422, http_body = ErrorBody ''Source image rejected'' (Some ''trailer visible'') \<rparr>,
      [analysis_request ''YWJj'' ''image/jpeg'']) \<and>
   status (queue (step launched (Settle 0 (NotOk
      (error_body_text ''Source image rejected'' (Some ''trailer visible''))))) ! 0) = Error \<and>
   error (queue (step launched (Settle 0 (NotOk
      (error_body_text ''Source image rejected'' (Some ''trailer visible''))))) ! 0) =
     Some (''{'' @ JSON_string ''error'' @ '':'' @ JSON_string ''Source image rejected'' @ '','' @
           JSON_string ''reason'' @ '':'' @ JSON_string ''trailer visible'' @ ''}'')"
proof -
  let ?req = "sample_request [(''image'', FFile sample_file)]"
  let ?t = "error_body_text ''Source image rejected'' (Some ''trailer visible'')"
  let ?w = "step launched (Settle 0 (NotOk ?t))"
  have k: "truthy (OPENAI_API_KEY ?req)" "formData ?req = Inr [(''image'', FFile sample_file)]"
    "form_get [(''image'', FFile sample_file)] ''image'' = Some (FFile sample_file)"
    by (simp_all add: sample_request_def truthy_def form_get_def)
  have a: "analyzeSourceImage sample_runtime (answering rejecting_text)
      (toBase64 sample_runtime (file_bytes sample_file))
      (if file_type sample_file = [] then ''image/jpeg'' else file_type sample_file) =
      (Inr rejecting_analysis, [analysis_request ''YWJj'' ''image/jpeg''])"
    using sample_rejection by (simp add: sample_runtime_def sample_file_def)
  have s: "shouldReject rejecting_analysis" "rejectionReason rejecting_analysis = Some ''trailer visible''"
    by (simp_all add: rejecting_analysis_def)
  have e: "toBase64 sample_runtime (file_bytes sample_file) = ''YWJj''"
    "(if file_type sample_file = [] then ''image/jpeg'' else file_type sample_file) = ''image/jpeg''"
    by (simp_all add: sample_runtime_def sample_file_def)
  have r: "running launched = [hd (running launched)]"
    "pending (hd (running launched)) = hd (pending (hd (running launched))) # tl (pending (hd (running launched)))"
    "queue ?w ! 0 \<in> set (queue ?w)"
    "item_id (queue ?w ! 0) = item_id (hd (pending (hd (running launched))))"
    by code_simp+
  note inst = rejection_short_circuits [OF k a s(1), of launched "hd (running launched)"
      "hd (pending (hd (running launched)))" "tl (pending (hd (running launched)))" "queue ?w ! 0"]
  have 1: "POST sample_runtime (answering rejecting_text) ?req =
     (Inr \<lparr> http_status = 422, http_body = ErrorBody ''Source image rejected'' (Some ''trailer visible'') \<rparr>,
      [analysis_request ''YWJj'' ''image/jpeg''])"
    using inst unfolding s(2) e by blast
  have 2: "status (queue ?w ! 0) = Error \<and> error (queue ?w ! 0) = Some ?t"
    using inst reachable_launched r unfolding s(2) by blast
  have 3: "?t = ''{'' @ JSON_string ''error'' @ '':'' @ JSON_string ''Source image rejected'' @ '','' @
           JSON_string ''reason'' @ '':'' @ JSON_string ''trailer visible'' @ ''}''"
    by (simp add: error_body_text_def)
  from 1 2 3 show ?thesis by simp
qed

end
